theory Spec2Isabelle
  imports Complex_Main
begin

section \<open>Array of numerical histograms (anumhist.c)\<close>

subsection \<open>C doubles\<close>

text \<open>
  A C \<open>double\<close> is a finite value, one of the two infinities, or a NaN. Finite values
  are modelled by exact reals: rounding to 53 bits and overflow of finite results to
  infinity are idealised away, everything else follows IEEE 754. Signed zeros are not
  distinguished; a zero divisor is taken as \<open>+0\<close>. That is what the program has wherever
  the sign of a zero could be seen: the divisor \<open>Nx\<close> of \<open>normalizepdf\<close> is converted
  from an \<open>int\<close>, and a quotient by \<open>deltax = 0\<close> in \<open>updatevalue\<close> is infinite or NaN
  with either sign, which the conversion to \<open>int\<close> does not define.

  Exactness is an idealisation of the values, not of the control flow. What is proved
  below is about the order of the checks, which comparisons the scans make and what
  they record, and the counters, which are whole numbers (doubles hold them exactly up
  to \<open>2^53\<close>). Where the text of a property speaks of the value of a rounded result,
  \<open>round64\<close> below gives the double that the source computes.
\<close>

datatype double = Fin real | PInf | NInf | NaN

fun is_finite :: "double \<Rightarrow> bool" where
  "is_finite (Fin x) = True"
| "is_finite PInf = False"
| "is_finite NInf = False"
| "is_finite NaN = False"

fun dneg :: "double \<Rightarrow> double" where
  "dneg (Fin x) = Fin (- x)"
| "dneg PInf = NInf"
| "dneg NInf = PInf"
| "dneg NaN = NaN"

fun dadd :: "double \<Rightarrow> double \<Rightarrow> double" where
  "dadd (Fin x) (Fin y) = Fin (x + y)"
| "dadd (Fin x) PInf = PInf"
| "dadd (Fin x) NInf = NInf"
| "dadd (Fin x) NaN = NaN"
| "dadd PInf (Fin y) = PInf"
| "dadd PInf PInf = PInf"
| "dadd PInf NInf = NaN"
| "dadd PInf NaN = NaN"
| "dadd NInf (Fin y) = NInf"
| "dadd NInf PInf = NaN"
| "dadd NInf NInf = NInf"
| "dadd NInf NaN = NaN"
| "dadd NaN y = NaN"

definition dsub :: "double \<Rightarrow> double \<Rightarrow> double" where
  "dsub x y = dadd x (dneg y)"

text \<open>The sign of a double that is not a NaN: \<open>-1\<close>, \<open>0\<close> or \<open>1\<close>.\<close>

fun dsgn :: "double \<Rightarrow> int" where
  "dsgn (Fin x) = (if x < 0 then - 1 else if x = 0 then 0 else 1)"
| "dsgn PInf = 1"
| "dsgn NInf = - 1"
| "dsgn NaN = 0"

definition inf_of_sign :: "int \<Rightarrow> double" where
  "inf_of_sign s = (if s = 0 then NaN else if 0 < s then PInf else NInf)"

fun dmul :: "double \<Rightarrow> double \<Rightarrow> double" where
  "dmul (Fin x) (Fin y) = Fin (x * y)"
| "dmul (Fin x) PInf = inf_of_sign (dsgn (Fin x))"
| "dmul (Fin x) NInf = inf_of_sign (- dsgn (Fin x))"
| "dmul (Fin x) NaN = NaN"
| "dmul PInf (Fin y) = inf_of_sign (dsgn (Fin y))"
| "dmul PInf PInf = PInf"
| "dmul PInf NInf = NInf"
| "dmul PInf NaN = NaN"
| "dmul NInf (Fin y) = inf_of_sign (- dsgn (Fin y))"
| "dmul NInf PInf = NInf"
| "dmul NInf NInf = PInf"
| "dmul NInf NaN = NaN"
| "dmul NaN y = NaN"

fun ddiv :: "double \<Rightarrow> double \<Rightarrow> double" where
  "ddiv (Fin x) (Fin y) = (if y = 0 then inf_of_sign (dsgn (Fin x)) else Fin (x / y))"
| "ddiv (Fin x) PInf = Fin 0"
| "ddiv (Fin x) NInf = Fin 0"
| "ddiv (Fin x) NaN = NaN"
| "ddiv PInf (Fin y) = (if y < 0 then NInf else PInf)"
| "ddiv PInf PInf = NaN"
| "ddiv PInf NInf = NaN"
| "ddiv PInf NaN = NaN"
| "ddiv NInf (Fin y) = (if y < 0 then PInf else NInf)"
| "ddiv NInf PInf = NaN"
| "ddiv NInf NInf = NaN"
| "ddiv NInf NaN = NaN"
| "ddiv NaN y = NaN"

text \<open>The comparison \<open>x > y\<close>: false as soon as one side is a NaN.\<close>

fun dgt :: "double \<Rightarrow> double \<Rightarrow> bool" where
  "dgt (Fin x) (Fin y) = (y < x)"
| "dgt (Fin x) PInf = False"
| "dgt (Fin x) NInf = True"
| "dgt (Fin x) NaN = False"
| "dgt PInf (Fin y) = True"
| "dgt PInf PInf = False"
| "dgt PInf NInf = True"
| "dgt PInf NaN = False"
| "dgt NInf y = False"
| "dgt NaN y = False"

text \<open>
  \<open>rint\<close> in the default rounding mode: to the nearest integer, a tie to the even one.
  Infinities and NaN are returned unchanged.
\<close>

definition round_half_even :: "real \<Rightarrow> int" where
  "round_half_even x =
     (let f = \<lfloor>x\<rfloor>; d = x - of_int f
      in if d < 1 / 2 then f
         else if 1 / 2 < d then f + 1
         else if even f then f else f + 1)"

fun rint :: "double \<Rightarrow> double" where
  "rint (Fin x) = Fin (of_int (round_half_even x))"
| "rint PInf = PInf"
| "rint NInf = NInf"
| "rint NaN = NaN"

text \<open>
  The conversion \<open>(int) x\<close> of a double to a 32-bit \<open>int\<close> discards the fractional
  part. When the integral part is not representable, or \<open>x\<close> is not finite, the C
  standard leaves the behaviour undefined: \<open>None\<close>.
\<close>

definition trunc :: "real \<Rightarrow> int" where
  "trunc x = (if 0 \<le> x then \<lfloor>x\<rfloor> else \<lceil>x\<rceil>)"

definition INT_MIN :: int where
  "INT_MIN = - 2147483648"

definition INT_MAX :: int where
  "INT_MAX = 2147483647"

fun d2i :: "double \<Rightarrow> int option" where
  "d2i (Fin x) = (if INT_MIN \<le> trunc x \<and> trunc x \<le> INT_MAX then Some (trunc x) else None)"
| "d2i PInf = None"
| "d2i NInf = None"
| "d2i NaN = None"

text \<open>The conversion of an \<open>int\<close> to \<open>double\<close> is exact.\<close>

definition i2d :: "int \<Rightarrow> double" where
  "i2d i = Fin (of_int i)"


subsection \<open>The histogram array\<close>

text \<open>
  The struct \<open>NHArray\<close>. The buffer \<open>dbuffer\<close> of \<open>elems * nbins\<close> doubles is a
  list, a pointer into it is an offset, and an access outside the buffer is undefined
  behaviour (\<open>None\<close>). The flag \<open>normalized\<close> only ever holds 0 or 1.
\<close>

record NHArray =
  xl :: double
  xu :: double
  nbins :: int
  nbinsm1 :: int
  deltax :: double
  elems :: int
  dbuffer :: "double list"
  normalized :: bool

definition rd :: "double list \<Rightarrow> int \<Rightarrow> double option" where
  "rd buf k = (if 0 \<le> k \<and> k < int (length buf) then Some (buf ! nat k) else None)"

definition wr :: "double list \<Rightarrow> int \<Rightarrow> double \<Rightarrow> double list option" where
  "wr buf k v = (if 0 \<le> k \<and> k < int (length buf) then Some (buf[nat k := v]) else None)"

text \<open>
  What a Python-level function does: it returns a value or raises. The outer \<open>option\<close>
  of such a function is \<open>None\<close> where the C code has undefined behaviour.
\<close>

datatype pyexc = ValueError string | MemoryError

datatype 'a result = Returns 'a | Raises pyexc

text \<open>
  \<open>CreateNHArray\<close>. The flag \<open>mem\<close> says whether the allocator can serve the requests.
  \<open>nbins - 1\<close> and \<open>elems * nbins\<close> are \<open>int\<close> arithmetic, undefined on overflow; a
  negative product becomes a huge \<open>size_t\<close>, which \<open>calloc\<close> refuses.
\<close>

definition CreateNHArray :: "bool \<Rightarrow> double \<Rightarrow> double \<Rightarrow> int \<Rightarrow> int \<Rightarrow> NHArray result option" where
  "CreateNHArray mem xl' xu' nbins' elems' =
     (if \<not> mem then Some (Raises MemoryError)
      else if nbins' - 1 < INT_MIN then None
      else if elems' * nbins' < INT_MIN \<or> INT_MAX < elems' * nbins' then None
      else if elems' * nbins' < 0 then Some (Raises MemoryError)
      else Some (Returns
        \<lparr>xl = xl', xu = xu', nbins = nbins', nbinsm1 = nbins' - 1,
         deltax = ddiv (dsub xu' xl') (i2d (nbins' - 1)), elems = elems',
         dbuffer = replicate (nat (elems' * nbins')) (Fin 0), normalized = False\<rparr>))"

definition getpdfptr :: "NHArray \<Rightarrow> int \<Rightarrow> int" where
  "getpdfptr nhp ielems = ielems * nbins nhp"

definition updatevalue :: "NHArray \<Rightarrow> int \<Rightarrow> double \<Rightarrow> NHArray option" where
  "updatevalue nhp i val =
     (let thepdf = getpdfptr nhp i in
      case d2i (rint (ddiv (dsub val (xl nhp)) (deltax nhp))) of
        None \<Rightarrow> None
      | Some nbin0 \<Rightarrow>
          (let nbin1 = (if nbin0 < 0 then 0 else nbin0);
               nbin = (if nbin1 > nbinsm1 nhp then nbinsm1 nhp else nbin1)
           in case rd (dbuffer nhp) (thepdf + nbin) of
                None \<Rightarrow> None
              | Some c \<Rightarrow>
                  (case wr (dbuffer nhp) (thepdf + nbin) (dadd c (Fin 1)) of
                     None \<Rightarrow> None
                   | Some buf \<Rightarrow> Some (nhp\<lparr>dbuffer := buf\<rparr>))))"

text \<open>
  The array argument of \<open>UpdateNHArray\<close>: its number of dimensions, its dimensions
  and its elements along the first axis, element \<open>ipt\<close> being the double at
  \<open>data + strides[0] * ipt\<close>. The code takes the argument for an array of doubles
  without a check, and so does the model.
\<close>

record ndarray =
  nd :: int
  dimensions :: "int list"
  data :: "double list"

function UpdateNHArray_loop :: "NHArray \<Rightarrow> ndarray \<Rightarrow> int \<Rightarrow> NHArray option" where
  "UpdateNHArray_loop nhp a ipt =
     (if ipt < elems nhp then
        (case rd (data a) ipt of
           None \<Rightarrow> None
         | Some v \<Rightarrow>
             (case updatevalue nhp ipt v of
                None \<Rightarrow> None
              | Some nhp' \<Rightarrow> UpdateNHArray_loop nhp' a (ipt + 1)))
      else Some nhp)"
  by pat_completeness auto
termination
  by (relation "measure (\<lambda>(nhp, a, ipt). nat (elems nhp - ipt))")
    (auto simp: updatevalue_def Let_def wr_def split: option.splits if_splits)

declare UpdateNHArray_loop.simps [simp del]

definition UpdateNHArray :: "NHArray \<Rightarrow> ndarray \<Rightarrow> (unit result \<times> NHArray) option" where
  "UpdateNHArray nhp a =
     (if normalized nhp then
        Some (Raises (ValueError
          ''The histogram array has already been normalized, you can not update it''), nhp)
      else if nd a \<noteq> 1 then
        Some (Raises (ValueError ''Input array must be linear.''), nhp)
      else
        (case dimensions a of
           [] \<Rightarrow> None
         | d # ds \<Rightarrow>
             if d \<noteq> elems nhp then
               Some (Raises (ValueError
                 ''Input array dimensions and NHArray dimensions do not match.''), nhp)
             else
               (case UpdateNHArray_loop nhp a 0 of
                  None \<Rightarrow> None
                | Some nhp' \<Rightarrow> Some (Returns (), nhp'))))"

text \<open>
  \<open>normalizepdf\<close>: the first loop adds the row into the \<open>int\<close> variable \<open>Nx\<close>
  (each \<open>Nx += thepdf[nbin]\<close> adds in \<open>double\<close> and converts the sum back to
  \<open>int\<close>), the second divides every entry by \<open>Nx\<close>.
\<close>

function normalizepdf_sum :: "NHArray \<Rightarrow> int \<Rightarrow> int \<Rightarrow> int \<Rightarrow> int option" where
  "normalizepdf_sum nhp thepdf nbin Nx =
     (if nbin < nbins nhp then
        (case rd (dbuffer nhp) (thepdf + nbin) of
           None \<Rightarrow> None
         | Some v \<Rightarrow>
             (case d2i (dadd (i2d Nx) v) of
                None \<Rightarrow> None
              | Some Nx' \<Rightarrow> normalizepdf_sum nhp thepdf (nbin + 1) Nx'))
      else Some Nx)"
  by pat_completeness auto
termination
  by (relation "measure (\<lambda>(nhp, thepdf, nbin, Nx). nat (nbins nhp - nbin))") auto

declare normalizepdf_sum.simps [simp del]

function normalizepdf_div :: "NHArray \<Rightarrow> int \<Rightarrow> int \<Rightarrow> int \<Rightarrow> NHArray option" where
  "normalizepdf_div nhp thepdf nbin Nx =
     (if nbin < nbins nhp then
        (case rd (dbuffer nhp) (thepdf + nbin) of
           None \<Rightarrow> None
         | Some v \<Rightarrow>
             (case wr (dbuffer nhp) (thepdf + nbin) (ddiv v (i2d Nx)) of
                None \<Rightarrow> None
              | Some buf \<Rightarrow> normalizepdf_div (nhp\<lparr>dbuffer := buf\<rparr>) thepdf (nbin + 1) Nx))
      else Some nhp)"
  by pat_completeness auto
termination
  by (relation "measure (\<lambda>(nhp, thepdf, nbin, Nx). nat (nbins nhp - nbin))") auto

declare normalizepdf_div.simps [simp del]

definition normalizepdf :: "NHArray \<Rightarrow> int \<Rightarrow> NHArray option" where
  "normalizepdf nhp i =
     (let thepdf = getpdfptr nhp i in
      case normalizepdf_sum nhp thepdf 0 0 of
        None \<Rightarrow> None
      | Some Nx \<Rightarrow>
          (case normalizepdf_div nhp thepdf 0 Nx of
             None \<Rightarrow> None
           | Some nhp' \<Rightarrow> Some (nhp'\<lparr>normalized := True\<rparr>)))"

text \<open>
  \<open>getrange\<close>. The pair \<open>lu\<close> holds the contents of \<open>*xl\<close> and \<open>*xu\<close> when the
  function is entered; the result holds them when it returns.
\<close>

function getrange_loop ::
  "NHArray \<Rightarrow> int \<Rightarrow> double \<Rightarrow> double \<Rightarrow> int \<Rightarrow> double \<Rightarrow> bool \<Rightarrow> double \<times> double
     \<Rightarrow> (double \<times> double) option" where
  "getrange_loop nhp pdf pl pu nbin p gotlow lu =
     (if nbin < nbins nhp then
        (case rd (dbuffer nhp) (pdf + nbin) of
           None \<Rightarrow> None
         | Some v \<Rightarrow>
             (let p' = dadd p v;
                  lo' = (if dgt p' pl \<and> \<not> gotlow
                         then dadd (xl nhp) (dmul (deltax nhp) (i2d (nbin - 1))) else fst lu);
                  gotlow' = (if dgt p' pl \<and> \<not> gotlow then True else gotlow)
              in if dgt p' pu
                 then Some (lo', dadd (xl nhp) (dmul (deltax nhp) (i2d nbin)))
                 else getrange_loop nhp pdf pl pu (nbin + 1) p' gotlow' (lo', snd lu)))
      else Some lu)"
  by pat_completeness auto
termination
  by (relation "measure (\<lambda>(nhp, pdf, pl, pu, nbin, p, gotlow, lu). nat (nbins nhp - nbin))") auto

declare getrange_loop.simps [simp del]

definition getrange ::
  "NHArray \<Rightarrow> int \<Rightarrow> double \<Rightarrow> double \<Rightarrow> double \<times> double \<Rightarrow> (double \<times> double) option" where
  "getrange nhp i pl pu lu = getrange_loop nhp (getpdfptr nhp i) pl pu 0 (Fin 0) False lu"

text \<open>
  \<open>GetXRange\<close>. The locals \<open>xl\<close> and \<open>xu\<close> are not initialised: the pair \<open>junk\<close> is
  their indeterminate content when the function is entered. The result array is the
  list of its rows \<open>(xl, xu)\<close>. \<open>mem\<close> says whether the result array can be allocated;
  the host library also refuses a negative dimension. After a failed allocation the
  code sets the error and goes on (the last two branches): it stores through the null
  pointer when there is a row to store, and otherwise hands the null pointer back,
  which raises.
\<close>

function GetXRange_norm :: "NHArray \<Rightarrow> int \<Rightarrow> NHArray option" where
  "GetXRange_norm nhp ielem =
     (if ielem < elems nhp then
        (case normalizepdf nhp ielem of
           None \<Rightarrow> None
         | Some nhp' \<Rightarrow> GetXRange_norm nhp' (ielem + 1))
      else Some nhp)"
  by pat_completeness auto
termination
proof (relation "measure (\<lambda>(nhp, ielem). nat (elems nhp - ielem))")
  fix nhp ielem nhp'
  assume lt: "ielem < elems nhp" and n: "normalizepdf nhp ielem = Some nhp'"
  have d: "elems h' = elems h" if "normalizepdf_div h t k N = Some h'" for h h' t k N
    using that
  proof (induction h t k N rule: normalizepdf_div.induct)
    case (1 h t k N)
    show ?case
    proof (cases "k < nbins h")
      case False
      with "1.prems" show ?thesis by (simp add: normalizepdf_div.simps)
    next
      case True
      from True "1.prems" obtain v buf where
        v: "rd (dbuffer h) (t + k) = Some v" and
        buf: "wr (dbuffer h) (t + k) (ddiv v (i2d N)) = Some buf" and
        rec: "normalizepdf_div (h\<lparr>dbuffer := buf\<rparr>) t (k + 1) N = Some h'"
        by (subst (asm) normalizepdf_div.simps) (auto split: option.splits)
      from "1.IH"[OF True v buf rec] show ?thesis by simp
    qed
  qed
  from n have "elems nhp' = elems nhp"
    by (auto simp: normalizepdf_def Let_def split: option.splits dest: d)
  with lt show "((nhp', ielem + 1), nhp, ielem) \<in> measure (\<lambda>(nhp, ielem). nat (elems nhp - ielem))"
    by simp
qed simp

declare GetXRange_norm.simps [simp del]

function GetXRange_loop ::
  "NHArray \<Rightarrow> double \<Rightarrow> double \<Rightarrow> int \<Rightarrow> double \<times> double \<Rightarrow> (double \<times> double) list option" where
  "GetXRange_loop nhp pl pu ielem lu =
     (if ielem < elems nhp then
        (case getrange nhp ielem pl pu lu of
           None \<Rightarrow> None
         | Some lu' \<Rightarrow>
             (case GetXRange_loop nhp pl pu (ielem + 1) lu' of
                None \<Rightarrow> None
              | Some rows \<Rightarrow> Some (lu' # rows)))
      else Some [])"
  by pat_completeness auto
termination
  by (relation "measure (\<lambda>(nhp, pl, pu, ielem, lu). nat (elems nhp - ielem))") auto

declare GetXRange_loop.simps [simp del]

definition GetXRange ::
  "bool \<Rightarrow> NHArray \<Rightarrow> double \<Rightarrow> double \<times> double
     \<Rightarrow> ((double \<times> double) list result \<times> NHArray) option" where
  "GetXRange mem nhp prob junk =
     (case (if \<not> normalized nhp
            then (case GetXRange_norm nhp 0 of
                    None \<Rightarrow> None
                  | Some nhp' \<Rightarrow> Some (nhp'\<lparr>normalized := True\<rparr>))
            else Some nhp) of
        None \<Rightarrow> None
      | Some nhp1 \<Rightarrow>
          if mem \<and> 0 \<le> elems nhp1 then
            (let pl = ddiv prob (Fin 2);
                 pu = dsub (Fin 1) pl
             in case GetXRange_loop nhp1 pl pu 0 junk of
                  None \<Rightarrow> None
                | Some rarray \<Rightarrow> Some (Returns rarray, nhp1))
          else if 0 < elems nhp1 then None
          else Some (Raises MemoryError, nhp1))"

definition GetDeltaX :: "NHArray \<Rightarrow> double" where
  "GetDeltaX nhp = deltax nhp"

subsection \<open>Scenarios\<close>

text \<open>The one-dimensional array of doubles that holds \<open>xs\<close>.\<close>

definition samples :: "double list \<Rightarrow> ndarray" where
  "samples xs = \<lparr>nd = 1, dimensions = [int (length xs)], data = xs\<rparr>"

text \<open>A sequence of calls of \<open>UpdateNHArray\<close>, each of which returns normally.\<close>

fun accumulate_all :: "NHArray \<Rightarrow> ndarray list \<Rightarrow> NHArray option" where
  "accumulate_all nhp [] = Some nhp"
| "accumulate_all nhp (a # as) =
     (case UpdateNHArray nhp a of
        Some (Returns u, nhp') \<Rightarrow> accumulate_all nhp' as
      | _ \<Rightarrow> None)"

text \<open>
  The histogram of the concrete scenario: one variable, 11 bins on \<open>[0, 10]\<close>, the
  sample 5 accumulated ten times and the sample 0 once.
\<close>

definition scenario_hist :: "NHArray option" where
  "scenario_hist =
     (case CreateNHArray True (Fin 0) (Fin 10) 11 1 of
        Some (Returns nhp) \<Rightarrow>
          accumulate_all nhp (replicate 10 (samples [Fin 5]) @ [samples [Fin 0]])
      | _ \<Rightarrow> None)"

subsection \<open>The update with the conversion to \<open>int\<close> left to the platform\<close>

text \<open>
  Where C leaves \<open>(int) x\<close> undefined, a compiled \<open>updatevalue\<close> still gets some
  \<open>int\<close> from the conversion. The functions below are \<open>updatevalue\<close>,
  \<open>UpdateNHArray\<close> and the sequence of its calls once more, with the conversion a
  parameter \<open>conv\<close>: what the platform's conversion yields for each double. It agrees
  with \<open>d2i\<close> wherever \<open>d2i\<close> is defined; \<open>x86_d2i\<close> is the conversion of x86-64,
  which yields \<open>INT_MIN\<close> everywhere else.
\<close>

definition updatevalue_conv :: "(double \<Rightarrow> int) \<Rightarrow> NHArray \<Rightarrow> int \<Rightarrow> double \<Rightarrow> NHArray option" where
  "updatevalue_conv conv nhp i val =
     (let thepdf = getpdfptr nhp i;
          nbin0 = conv (rint (ddiv (dsub val (xl nhp)) (deltax nhp)));
          nbin1 = (if nbin0 < 0 then 0 else nbin0);
          nbin = (if nbin1 > nbinsm1 nhp then nbinsm1 nhp else nbin1)
      in case rd (dbuffer nhp) (thepdf + nbin) of
           None \<Rightarrow> None
         | Some c \<Rightarrow>
             (case wr (dbuffer nhp) (thepdf + nbin) (dadd c (Fin 1)) of
                None \<Rightarrow> None
              | Some buf \<Rightarrow> Some (nhp\<lparr>dbuffer := buf\<rparr>)))"

function UpdateNHArray_loop_conv ::
  "(double \<Rightarrow> int) \<Rightarrow> NHArray \<Rightarrow> ndarray \<Rightarrow> int \<Rightarrow> NHArray option" where
  "UpdateNHArray_loop_conv conv nhp a ipt =
     (if ipt < elems nhp then
        (case rd (data a) ipt of
           None \<Rightarrow> None
         | Some v \<Rightarrow>
             (case updatevalue_conv conv nhp ipt v of
                None \<Rightarrow> None
              | Some nhp' \<Rightarrow> UpdateNHArray_loop_conv conv nhp' a (ipt + 1)))
      else Some nhp)"
  by pat_completeness auto
termination
  by (relation "measure (\<lambda>(conv, nhp, a, ipt). nat (elems nhp - ipt))")
    (auto simp: updatevalue_conv_def Let_def wr_def split: option.splits if_splits)

declare UpdateNHArray_loop_conv.simps [simp del]

definition UpdateNHArray_conv ::
  "(double \<Rightarrow> int) \<Rightarrow> NHArray \<Rightarrow> ndarray \<Rightarrow> (unit result \<times> NHArray) option" where
  "UpdateNHArray_conv conv nhp a =
     (if normalized nhp then
        Some (Raises (ValueError
          ''The histogram array has already been normalized, you can not update it''), nhp)
      else if nd a \<noteq> 1 then
        Some (Raises (ValueError ''Input array must be linear.''), nhp)
      else
        (case dimensions a of
           [] \<Rightarrow> None
         | d # ds \<Rightarrow>
             if d \<noteq> elems nhp then
               Some (Raises (ValueError
                 ''Input array dimensions and NHArray dimensions do not match.''), nhp)
             else
               (case UpdateNHArray_loop_conv conv nhp a 0 of
                  None \<Rightarrow> None
                | Some nhp' \<Rightarrow> Some (Returns (), nhp'))))"

fun accumulate_all_conv :: "(double \<Rightarrow> int) \<Rightarrow> NHArray \<Rightarrow> ndarray list \<Rightarrow> NHArray option" where
  "accumulate_all_conv conv nhp [] = Some nhp"
| "accumulate_all_conv conv nhp (a # as) =
     (case UpdateNHArray_conv conv nhp a of
        Some (Returns u, nhp') \<Rightarrow> accumulate_all_conv conv nhp' as
      | _ \<Rightarrow> None)"

definition x86_d2i :: "double \<Rightarrow> int" where
  "x86_d2i x = (case d2i x of Some k \<Rightarrow> k | None \<Rightarrow> INT_MIN)"

subsection \<open>The histogram as rows, and the scan in the specification's words\<close>

text \<open>
  A histogram is well formed when it is laid out the way \<open>CreateNHArray\<close> lays it out:
  the buffer holds \<open>elems\<close> rows of \<open>nbins\<close> counters.
\<close>

definition wellformed :: "NHArray \<Rightarrow> bool" where
  "wellformed nhp = (0 \<le> elems nhp \<and> 0 \<le> nbins nhp \<and> nbinsm1 nhp = nbins nhp - 1 \<and>
             int (length (dbuffer nhp)) = elems nhp * nbins nhp)"

text \<open>Row \<open>i\<close> of the buffer, the histogram of variable \<open>i\<close>, and the list of all rows.\<close>

definition row :: "NHArray \<Rightarrow> int \<Rightarrow> double list" where
  "row nhp i = take (nat (nbins nhp)) (drop (nat (getpdfptr nhp i)) (dbuffer nhp))"

definition rows_of :: "NHArray \<Rightarrow> double list list" where
  "rows_of nhp = map (row nhp) [0..elems nhp - 1]"

text \<open>
  The running mass of a row after bin \<open>n\<close>, added from the left starting at 0, and the
  first bin at which the running mass exceeds a threshold.
\<close>

definition mass :: "double list \<Rightarrow> nat \<Rightarrow> double" where
  "mass r n = foldl dadd (Fin 0) (take (Suc n) r)"

definition crossing :: "double list \<Rightarrow> double \<Rightarrow> nat option" where
  "crossing r t = find (\<lambda>n. dgt (mass r n) t) [0..<length r]"

text \<open>The value \<open>lower + binWidth * k\<close>.\<close>

definition edge :: "NHArray \<Rightarrow> int \<Rightarrow> double" where
  "edge nhp k = dadd (xl nhp) (dmul (deltax nhp) (i2d k))"

text \<open>
  The scan of one row as the specification words it. The upper bound is the edge of the
  first bin whose running mass exceeds \<open>pu\<close>, and the scan ends there; the lower bound is
  one bin to the left of the first bin, among those scanned, whose running mass exceeds
  \<open>pl\<close>. A bound that is not recorded keeps the value \<open>lu\<close> carried in.
\<close>

definition scan :: "NHArray \<Rightarrow> double list \<Rightarrow> double \<Rightarrow> double \<Rightarrow> double \<times> double \<Rightarrow> double \<times> double" where
  "scan nhp r pl pu lu =
     (case crossing r pu of
        Some nu \<Rightarrow>
          ((case crossing (take (Suc nu) r) pl of
              Some nl \<Rightarrow> edge nhp (int nl - 1)
            | None \<Rightarrow> fst lu),
           edge nhp (int nu))
      | None \<Rightarrow>
          ((case crossing r pl of
              Some nl \<Rightarrow> edge nhp (int nl - 1)
            | None \<Rightarrow> fst lu),
           snd lu))"

fun scan_rows ::
  "NHArray \<Rightarrow> double \<Rightarrow> double \<Rightarrow> double list list \<Rightarrow> double \<times> double \<Rightarrow> (double \<times> double) list" where
  "scan_rows nhp pl pu [] lu = []"
| "scan_rows nhp pl pu (r # rs) lu = scan nhp r pl pu lu # scan_rows nhp pl pu rs (scan nhp r pl pu lu)"

text \<open>
  The sum of a row, added from the left as the running mass is; the row that holds
  the raw counts \<open>cs\<close>; and the histograms in which every row holds raw counts that
  sum to \<open>k\<close>.
\<close>

definition total :: "double list \<Rightarrow> double" where
  "total r = foldl dadd (Fin 0) r"

definition counts :: "nat list \<Rightarrow> double list" where
  "counts cs = map (\<lambda>c. Fin (real c)) cs"

definition raw_rows :: "NHArray \<Rightarrow> nat \<Rightarrow> bool" where
  "raw_rows nhp k = (\<forall>j. 0 \<le> j \<and> j < elems nhp \<longrightarrow>
     (\<exists>cs. row nhp j = counts cs \<and> sum_list cs = k))"

text \<open>
  The first loop of \<open>normalizepdf\<close> over a row given as a list.
\<close>

fun sum_rec :: "int \<Rightarrow> double list \<Rightarrow> int option" where
  "sum_rec Nx [] = Some Nx"
| "sum_rec Nx (v # vs) =
     (case d2i (dadd (i2d Nx) v) of None \<Rightarrow> None | Some Nx' \<Rightarrow> sum_rec Nx' vs)"

text \<open>Two recursions over a row, used to reason about the loop of \<open>getrange\<close>.\<close>

fun cross_rec :: "double \<Rightarrow> double list \<Rightarrow> double \<Rightarrow> nat option" where
  "cross_rec p [] t = None"
| "cross_rec p (v # vs) t =
     (if dgt (dadd p v) t then Some 0 else map_option Suc (cross_rec (dadd p v) vs t))"

fun scan_list ::
  "NHArray \<Rightarrow> double \<Rightarrow> double \<Rightarrow> double list \<Rightarrow> int \<Rightarrow> double \<Rightarrow> bool \<Rightarrow> double \<times> double
     \<Rightarrow> double \<times> double" where
  "scan_list nhp pl pu [] nbin p gotlow lu = lu"
| "scan_list nhp pl pu (v # vs) nbin p gotlow lu =
     (let p' = dadd p v;
          lo' = (if dgt p' pl \<and> \<not> gotlow then edge nhp (nbin - 1) else fst lu);
          gotlow' = (if dgt p' pl \<and> \<not> gotlow then True else gotlow)
      in if dgt p' pu then (lo', edge nhp nbin)
         else scan_list nhp pl pu vs (nbin + 1) p' gotlow' (lo', snd lu))"

text \<open>
  Histograms of two variables and three bins on \<open>[0, 2]\<close>: freshly created, after the
  two updates \<open>[0, 2]\<close> and \<open>[1, 7]\<close>, and the latter normalized; and the fresh one
  normalized.
\<close>

definition fresh23 :: NHArray where
  "fresh23 =
     \<lparr>xl = Fin 0, xu = Fin 2, nbins = 3, nbinsm1 = 2, deltax = Fin 1, elems = 2,
      dbuffer = replicate 6 (Fin 0), normalized = False\<rparr>"

definition hist23 :: NHArray where
  "hist23 = fresh23\<lparr>dbuffer := [Fin 1, Fin 1, Fin 0, Fin 0, Fin 0, Fin 2]\<rparr>"

definition pdf23 :: NHArray where
  "pdf23 = fresh23\<lparr>dbuffer := [Fin (1 / 2), Fin (1 / 2), Fin 0, Fin 0, Fin 0, Fin 1],
                   normalized := True\<rparr>"

definition normalized23 :: NHArray where
  "normalized23 = fresh23\<lparr>dbuffer := replicate 6 NaN, normalized := True\<rparr>"

text \<open>
  The fresh histogram of one variable and 11 bins on \<open>[0, 10]\<close>; the histogram of one
  variable and three bins on \<open>[0, 2]\<close> that holds \<open>c\<close> samples in bin 0 and \<open>d\<close> in
  bin 1; and the histogram of one variable and three bins on \<open>[1e16, 1e16 + 2]\<close>,
  freshly created, after the update \<open>[1e16]\<close>, and normalized.
\<close>

definition fresh11 :: NHArray where
  "fresh11 =
     \<lparr>xl = Fin 0, xu = Fin 10, nbins = 11, nbinsm1 = 10, deltax = Fin 1, elems = 1,
      dbuffer = replicate 11 (Fin 0), normalized = False\<rparr>"

definition hist13 :: "nat \<Rightarrow> nat \<Rightarrow> NHArray" where
  "hist13 c d =
     \<lparr>xl = Fin 0, xu = Fin 2, nbins = 3, nbinsm1 = 2, deltax = Fin 1, elems = 1,
      dbuffer = [Fin (real c), Fin (real d), Fin 0], normalized = False\<rparr>"




section \<open>Properties\<close>

subsection \<open>Fields the operations leave alone\<close>

lemma updatevalue_fields:
  assumes "updatevalue nhp i val = Some nhp'"
  shows "elems nhp' = elems nhp" and "nbins nhp' = nbins nhp" and "nbinsm1 nhp' = nbinsm1 nhp"
    and "xl nhp' = xl nhp" and "xu nhp' = xu nhp" and "deltax nhp' = deltax nhp"
    and "normalized nhp' = normalized nhp" and "length (dbuffer nhp') = length (dbuffer nhp)"
  using assms
  by (auto simp: updatevalue_def Let_def wr_def split: option.splits if_splits)

lemma normalizepdf_div_fields:
  "normalizepdf_div nhp thepdf nbin Nx = Some nhp' \<Longrightarrow>
     elems nhp' = elems nhp \<and> nbins nhp' = nbins nhp \<and> nbinsm1 nhp' = nbinsm1 nhp \<and>
     xl nhp' = xl nhp \<and> xu nhp' = xu nhp \<and> deltax nhp' = deltax nhp \<and>
     normalized nhp' = normalized nhp \<and> length (dbuffer nhp') = length (dbuffer nhp)"
proof (induction nhp thepdf nbin Nx rule: normalizepdf_div.induct)
  case (1 nhp thepdf nbin Nx)
  show ?case
  proof (cases "nbin < nbins nhp")
    case False
    with "1.prems" show ?thesis by (simp add: normalizepdf_div.simps)
  next
    case True
    from True "1.prems" obtain v buf where
      v: "rd (dbuffer nhp) (thepdf + nbin) = Some v" and
      buf: "wr (dbuffer nhp) (thepdf + nbin) (ddiv v (i2d Nx)) = Some buf" and
      rec: "normalizepdf_div (nhp\<lparr>dbuffer := buf\<rparr>) thepdf (nbin + 1) Nx = Some nhp'"
      by (subst (asm) normalizepdf_div.simps) (auto split: option.splits)
    from "1.IH"[OF True v buf rec] buf show ?thesis
      by (auto simp: wr_def split: if_splits)
  qed
qed

lemma normalizepdf_fields:
  assumes "normalizepdf nhp i = Some nhp'"
  shows "elems nhp' = elems nhp" and "nbins nhp' = nbins nhp" and "nbinsm1 nhp' = nbinsm1 nhp"
    and "xl nhp' = xl nhp" and "xu nhp' = xu nhp" and "deltax nhp' = deltax nhp"
    and "normalized nhp'" and "length (dbuffer nhp') = length (dbuffer nhp)"
  using assms
  by (auto simp: normalizepdf_def Let_def split: option.splits dest: normalizepdf_div_fields)

subsection \<open>Errors of \<open>UpdateNHArray\<close>\<close>

lemma GetXRange_normalized:
  assumes "GetXRange mem nhp prob junk = Some (r, nhp')"
  shows "normalized nhp'"
  using assms
  by (auto simp: GetXRange_def Let_def split: option.splits if_splits)

text \<open>
  C5: \<open>UpdateNHArray\<close> raises the state error on a normalized histogram, in
  particular on the histogram any call of \<open>GetXRange\<close> has left; on a histogram that
  is not normalized (the state is checked first) it raises a shape error when the
  array is not one-dimensional or its length is not \<open>elems\<close>; and whenever it raises,
  the histogram (bin counters and flag) is the one it was given.
\<close>

theorem UpdateNHArray_errors:
  "(normalized nhp \<longrightarrow>
      UpdateNHArray nhp a = Some (Raises (ValueError
        ''The histogram array has already been normalized, you can not update it''), nhp)) \<and>
   (GetXRange mem nhp0 prob junk = Some (r, nhp) \<longrightarrow>
      UpdateNHArray nhp a = Some (Raises (ValueError
        ''The histogram array has already been normalized, you can not update it''), nhp)) \<and>
   (\<not> normalized nhp \<and> nd a \<noteq> 1 \<longrightarrow>
      UpdateNHArray nhp a = Some (Raises (ValueError ''Input array must be linear.''), nhp)) \<and>
   (\<not> normalized nhp \<and> nd a = 1 \<and> dimensions a = d # ds \<and> d \<noteq> elems nhp \<longrightarrow>
      UpdateNHArray nhp a = Some (Raises (ValueError
        ''Input array dimensions and NHArray dimensions do not match.''), nhp)) \<and>
   (\<forall>e nhp'. UpdateNHArray nhp a = Some (Raises e, nhp') \<longrightarrow> nhp' = nhp)"
proof -
  have "normalized nhp" if "GetXRange mem nhp0 prob junk = Some (r, nhp)"
    using that by (rule GetXRange_normalized)
  moreover have "nhp' = nhp" if "UpdateNHArray nhp a = Some (Raises e, nhp')" for e nhp'
    using that by (auto simp: UpdateNHArray_def split: if_splits list.splits option.splits)
  ultimately show ?thesis
    by (auto simp: UpdateNHArray_def)
qed

lemma GetXRange_fresh23:
  "GetXRange True fresh23 (Fin 1) (Fin 7, Fin 8) =
     Some (Returns [(Fin 7, Fin 8), (Fin 7, Fin 8)], normalized23)"
  by code_simp

theorem UpdateNHArray_errors_witness:
  "normalized normalized23 \<and>
   GetXRange True fresh23 (Fin 1) (Fin 7, Fin 8) =
     Some (Returns [(Fin 7, Fin 8), (Fin 7, Fin 8)], normalized23) \<and>
   UpdateNHArray normalized23 (samples [Fin 0, Fin 1]) = Some (Raises (ValueError
     ''The histogram array has already been normalized, you can not update it''), normalized23) \<and>
   \<not> normalized fresh23 \<and>
   nd \<lparr>nd = 2, dimensions = [1, 2], data = [Fin 0, Fin 1]\<rparr> \<noteq> 1 \<and>
   UpdateNHArray fresh23 \<lparr>nd = 2, dimensions = [1, 2], data = [Fin 0, Fin 1]\<rparr> =
     Some (Raises (ValueError ''Input array must be linear.''), fresh23) \<and>
   nd (samples [Fin 0]) = 1 \<and> dimensions (samples [Fin 0]) = [1] \<and> 1 \<noteq> elems fresh23 \<and>
   UpdateNHArray fresh23 (samples [Fin 0]) = Some (Raises (ValueError
     ''Input array dimensions and NHArray dimensions do not match.''), fresh23)"
proof -
  have n: "normalized normalized23" and f: "\<not> normalized fresh23" and e: "1 \<noteq> elems fresh23"
    by (simp_all add: normalized23_def fresh23_def)
  have s: "nd (samples [Fin 0]) = 1" "dimensions (samples [Fin 0]) = [1]"
    by (simp_all add: samples_def)
  note g = GetXRange_fresh23
  from UpdateNHArray_errors
         [of normalized23 "samples [Fin 0, Fin 1]" True fresh23 "Fin 1" "(Fin 7, Fin 8)"
             "Returns [(Fin 7, Fin 8), (Fin 7, Fin 8)]"] g
  have 1: "UpdateNHArray normalized23 (samples [Fin 0, Fin 1]) = Some (Raises (ValueError
     ''The histogram array has already been normalized, you can not update it''), normalized23)"
    by blast
  from UpdateNHArray_errors
         [of fresh23 "\<lparr>nd = 2, dimensions = [1, 2], data = [Fin 0, Fin 1]\<rparr>"] f
  have 2: "UpdateNHArray fresh23 \<lparr>nd = 2, dimensions = [1, 2], data = [Fin 0, Fin 1]\<rparr> =
     Some (Raises (ValueError ''Input array must be linear.''), fresh23)"
    by simp
  from UpdateNHArray_errors [of fresh23 "samples [Fin 0]" _ _ _ _ _ 1 "[]"] f s e
  have 3: "UpdateNHArray fresh23 (samples [Fin 0]) = Some (Raises (ValueError
     ''Input array dimensions and NHArray dimensions do not match.''), fresh23)"
    by simp
  from n g 1 f 2 s e 3 show ?thesis by simp
qed

subsection \<open>The concrete scenario\<close>

lemma scenario_hist_eq:
  "scenario_hist =
     Some \<lparr>xl = Fin 0, xu = Fin 10, nbins = 11, nbinsm1 = 10, deltax = Fin 1, elems = 1,
           dbuffer = [Fin 1, Fin 0, Fin 0, Fin 0, Fin 0, Fin 10, Fin 0, Fin 0, Fin 0, Fin 0, Fin 0],
           normalized = False\<rparr>"
  by code_simp

lemma scenario_range:
  "GetXRange True
     \<lparr>xl = Fin 0, xu = Fin 10, nbins = 11, nbinsm1 = 10, deltax = Fin 1, elems = 1,
      dbuffer = [Fin 1, Fin 0, Fin 0, Fin 0, Fin 0, Fin 10, Fin 0, Fin 0, Fin 0, Fin 0, Fin 0],
      normalized = False\<rparr> (Fin (2 / 10)) (jl, ju) =
   Some (Returns [(Fin 4, Fin 5)],
     \<lparr>xl = Fin 0, xu = Fin 10, nbins = 11, nbinsm1 = 10, deltax = Fin 1, elems = 1,
      dbuffer = [Fin (1 / 11), Fin 0, Fin 0, Fin 0, Fin 0, Fin (10 / 11),
                 Fin 0, Fin 0, Fin 0, Fin 0, Fin 0],
      normalized = True\<rparr>)"
  by code_simp

text \<open>
  C2: after \<open>create(0, 10, 11, 1)\<close>, whose bin width is 1, ten updates with the sample
  5 and one with the sample 0, the raw row is \<open>[1,0,0,0,0,10,0,0,0,0,0]\<close> and
  \<open>GetXRange\<close> with tail probability 0.2 returns the single row \<open>(4, 5)\<close>, whatever the
  locals held before.
\<close>

theorem scenario_GetXRange:
  "\<exists>nhp nhp'.
     scenario_hist = Some nhp \<and> GetDeltaX nhp = Fin 1 \<and>
     dbuffer nhp = [Fin 1, Fin 0, Fin 0, Fin 0, Fin 0, Fin 10, Fin 0, Fin 0, Fin 0, Fin 0, Fin 0] \<and>
     GetXRange True nhp (Fin (2 / 10)) (jl, ju) = Some (Returns [(Fin 4, Fin 5)], nhp')"
proof (intro exI conjI)
  show "scenario_hist =
     Some \<lparr>xl = Fin 0, xu = Fin 10, nbins = 11, nbinsm1 = 10, deltax = Fin 1, elems = 1,
           dbuffer = [Fin 1, Fin 0, Fin 0, Fin 0, Fin 0, Fin 10, Fin 0, Fin 0, Fin 0, Fin 0, Fin 0],
           normalized = False\<rparr>"
    by (rule scenario_hist_eq)
qed (simp_all only: scenario_range GetDeltaX_def NHArray.select_convs)

subsection \<open>Rows of a well-formed histogram\<close>

lemma row_index_bound:
  fixes i e n nb :: int
  assumes "0 \<le> i" "i < e" "0 \<le> nb" "nb < n"
  shows "i * n + nb < e * n"
proof -
  have "(i + 1) * n \<le> e * n"
    using assms by (intro mult_right_mono) auto
  then show ?thesis using assms by (simp add: algebra_simps)
qed

lemma length_row:
  assumes "wellformed nhp" "0 \<le> i" "i < elems nhp"
  shows "length (row nhp i) = nat (nbins nhp)"
proof -
  have "(i + 1) * nbins nhp \<le> elems nhp * nbins nhp"
    using assms by (intro mult_right_mono) (auto simp: wellformed_def)
  then have "i * nbins nhp + nbins nhp \<le> int (length (dbuffer nhp))"
    using assms by (simp add: wellformed_def algebra_simps)
  moreover have "0 \<le> i * nbins nhp" using assms by (simp add: wellformed_def)
  ultimately show ?thesis
    by (simp add: row_def getpdfptr_def)
qed

lemma rd_row:
  assumes "wellformed nhp" "0 \<le> i" "i < elems nhp" "0 \<le> nb" "nb < nbins nhp"
  shows "rd (dbuffer nhp) (getpdfptr nhp i + nb) = Some (row nhp i ! nat nb)"
proof -
  have b: "i * nbins nhp + nb < int (length (dbuffer nhp))"
    using assms row_index_bound[of i "elems nhp" nb "nbins nhp"] by (simp add: wellformed_def)
  have z: "0 \<le> i * nbins nhp" using assms by (simp add: wellformed_def)
  have "nat (i * nbins nhp + nb) = nat (i * nbins nhp) + nat nb"
    using z assms by (simp add: nat_add_distrib)
  then show ?thesis
    using b z assms by (simp add: rd_def row_def getpdfptr_def)
qed

lemma rows_of_nth:
  assumes "0 \<le> i" "i < elems nhp"
  shows "nat i < length (rows_of nhp)" and "rows_of nhp ! nat i = row nhp i"
  using assms by (simp_all add: rows_of_def)

lemma rows_of_Cons:
  assumes "0 < elems nhp"
  shows "rows_of nhp = row nhp 0 # map (row nhp) [1..elems nhp - 1]"
  using assms by (simp add: rows_of_def upto_rec1)

subsection \<open>The loop of \<open>getrange\<close> is the scan\<close>

lemma find_map_upt: "find P (map f xs) = map_option f (find (P \<circ> f) xs)"
  by (induction xs) auto

lemma crossing_from_rec:
  "find (\<lambda>n. dgt (foldl dadd p (take (Suc n) r)) t) [0..<length r] = cross_rec p r t"
proof (induction r arbitrary: p)
  case Nil
  show ?case by simp
next
  case (Cons v vs)
  have "[0..<length (v # vs)] = 0 # map Suc [0..<length vs]"
    by (simp add: upt_conv_Cons map_Suc_upt del: upt_Suc)
  then show ?case
    using Cons.IH[of "dadd p v"] by (simp add: find_map_upt comp_def del: upt_Suc)
qed

lemma crossing_rec: "crossing r t = cross_rec (Fin 0) r t"
  unfolding crossing_def mass_def by (rule crossing_from_rec)


lemma crossing_None_iff:
  "crossing r t = None \<longleftrightarrow> (\<forall>n<length r. \<not> dgt (mass r n) t)"
  by (auto simp: crossing_def find_None_iff)

lemma cross_rec_below:
  "cross_rec p vs pu = Some nu \<Longrightarrow> (\<And>q. dgt q pu \<Longrightarrow> dgt q pl) \<Longrightarrow>
   \<exists>nl\<le>nu. cross_rec p vs pl = Some nl \<and> cross_rec p (take (Suc nu) vs) pl = Some nl"
proof (induction vs arbitrary: p nu)
  case Nil
  then show ?case by simp
next
  case (Cons v vs)
  show ?case
  proof (cases "dgt (dadd p v) pu")
    case True
    with Cons.prems show ?thesis by auto
  next
    case False
    with Cons.prems(1) obtain k where k: "cross_rec (dadd p v) vs pu = Some k" "nu = Suc k"
      by auto
    from Cons.IH[OF k(1) Cons.prems(2)] obtain nl where
      "nl \<le> k" "cross_rec (dadd p v) vs pl = Some nl"
      "cross_rec (dadd p v) (take (Suc k) vs) pl = Some nl"
      by blast
    with k show ?thesis by (cases "dgt (dadd p v) pl") auto
  qed
qed

lemma crossing_below:
  assumes "crossing r pu = Some nu" "\<And>q. dgt q pu \<Longrightarrow> dgt q pl"
  shows "\<exists>nl\<le>nu. crossing r pl = Some nl \<and> crossing (take (Suc nu) r) pl = Some nl"
  using cross_rec_below[of "Fin 0" r pu nu pl] assms by (simp add: crossing_rec)


lemma getrange_loop_scan_list:
  "wellformed nhp \<Longrightarrow> 0 \<le> i \<Longrightarrow> i < elems nhp \<Longrightarrow> pdf = getpdfptr nhp i \<Longrightarrow>
   0 \<le> nbin \<Longrightarrow> nbin \<le> nbins nhp \<Longrightarrow>
    getrange_loop nhp pdf pl pu nbin p gotlow lu =
      Some (scan_list nhp pl pu (drop (nat nbin) (row nhp i)) nbin p gotlow lu)"
proof (induction nhp pdf pl pu nbin p gotlow lu rule: getrange_loop.induct)
  case (1 nhp pdf pl pu nbin p gotlow lu)
  note wfi = \<open>wellformed nhp\<close> \<open>0 \<le> i\<close> \<open>i < elems nhp\<close>
  show ?case
  proof (cases "nbin < nbins nhp")
    case False
    with "1.prems" show ?thesis
      by (subst getrange_loop.simps) (simp add: length_row)
  next
    case True
    have r: "rd (dbuffer nhp) (pdf + nbin) = Some (row nhp i ! nat nbin)"
      using "1.prems" True by (simp add: rd_row)
    have d: "drop (nat nbin) (row nhp i) = row nhp i ! nat nbin # drop (nat (nbin + 1)) (row nhp i)"
      using "1.prems" True
      by (simp add: length_row nat_add_distrib Cons_nth_drop_Suc)
    have n: "0 \<le> nbin + 1" "nbin + 1 \<le> nbins nhp" using "1.prems" True by auto
    note IH = "1.IH"[OF True r refl refl refl _ wfi \<open>pdf = getpdfptr nhp i\<close> n]
    show ?thesis
      apply (subst getrange_loop.simps)
      apply (simp only: r True d if_True option.case Let_def scan_list.simps edge_def)
      apply (auto simp: IH)
      done
  qed
qed

lemma scan_list_cross:
  "scan_list nhp pl pu vs nbin p gotlow lu =
     (case cross_rec p vs pu of
        Some nu \<Rightarrow>
          (if gotlow then fst lu
           else (case cross_rec p (take (Suc nu) vs) pl of
                   Some nl \<Rightarrow> edge nhp (nbin + int nl - 1)
                 | None \<Rightarrow> fst lu),
           edge nhp (nbin + int nu))
      | None \<Rightarrow>
          (if gotlow then fst lu
           else (case cross_rec p vs pl of
                   Some nl \<Rightarrow> edge nhp (nbin + int nl - 1)
                 | None \<Rightarrow> fst lu),
           snd lu))"
proof (induction vs arbitrary: nbin p gotlow lu)
  case Nil
  show ?case by simp
next
  case (Cons v vs)
  show ?case
  proof (cases "dgt (dadd p v) pu")
    case True
    then show ?thesis by (simp add: Let_def)
  next
    case False
    then show ?thesis
      by (cases "cross_rec (dadd p v) vs pu"; cases gotlow; cases "dgt (dadd p v) pl")
        (auto simp: Let_def Cons.IH algebra_simps split: option.splits)
  qed
qed

lemma getrange_scan:
  assumes "wellformed nhp" "0 \<le> i" "i < elems nhp"
  shows "getrange nhp i pl pu lu = Some (scan nhp (row nhp i) pl pu lu)"
  using assms getrange_loop_scan_list[of nhp i "getpdfptr nhp i" 0 pl pu "Fin 0" False lu]
  by (simp add: getrange_def scan_def wellformed_def scan_list_cross crossing_rec
      cong: option.case_cong split: option.splits)

lemma scan_both_set:
  assumes "crossing r pu = Some nu" "crossing (take (Suc nu) r) pl = Some nl"
  shows "scan nhp r pl pu lu = scan nhp r pl pu lu'"
  using assms by (simp add: scan_def)


lemma dgt_tail_thresholds:
  assumes "\<not> dgt prob (Fin 1)" "dgt q (dsub (Fin 1) (ddiv prob (Fin 2)))"
  shows "dgt q (ddiv prob (Fin 2))"
  using assms by (cases prob; cases q) (auto simp: dsub_def)

subsection \<open>The rows \<open>GetXRange\<close> returns\<close>

lemma GetXRange_loop_rows:
  "wellformed nhp \<Longrightarrow> 0 \<le> ielem \<Longrightarrow>
   GetXRange_loop nhp pl pu ielem lu =
     Some (scan_rows nhp pl pu (map (row nhp) [ielem..elems nhp - 1]) lu)"
proof (induction nhp pl pu ielem lu rule: GetXRange_loop.induct)
  case (1 nhp pl pu ielem lu)
  show ?case
  proof (cases "ielem < elems nhp")
    case False
    then show ?thesis by (subst GetXRange_loop.simps) simp
  next
    case True
    have g: "getrange nhp ielem pl pu lu = Some (scan nhp (row nhp ielem) pl pu lu)"
      using "1.prems" True by (simp add: getrange_scan)
    have u: "[ielem..elems nhp - 1] = ielem # [ielem + 1..elems nhp - 1]"
      using True by (simp add: upto_rec1)
    from "1.IH"[OF True g] "1.prems" show ?thesis
      by (subst GetXRange_loop.simps) (simp add: g u True)
  qed
qed

lemma length_scan_rows: "length (scan_rows nhp pl pu rs lu) = length rs"
  by (induction rs arbitrary: lu) auto

lemma scan_rows_nth:
  "i < length rs \<Longrightarrow>
   scan_rows nhp pl pu rs lu ! i =
     scan nhp (rs ! i) pl pu (if i = 0 then lu else scan_rows nhp pl pu rs lu ! (i - 1))"
proof (induction rs arbitrary: i lu)
  case Nil
  then show ?case by simp
next
  case (Cons r rs)
  show ?case
  proof (cases i)
    case 0
    then show ?thesis by simp
  next
    case (Suc j)
    with Cons.prems have j: "j < length rs" by simp
    show ?thesis
      using Cons.IH[OF j, of "scan nhp r pl pu lu"] Suc
      by (cases j) simp_all
  qed
qed

lemma GetXRange_norm_wf:
  "GetXRange_norm nhp ielem = Some nhp' \<Longrightarrow> wellformed nhp \<Longrightarrow>
     wellformed nhp' \<and> elems nhp' = elems nhp \<and> nbins nhp' = nbins nhp \<and>
     xl nhp' = xl nhp \<and> deltax nhp' = deltax nhp"
proof (induction nhp ielem rule: GetXRange_norm.induct)
  case (1 nhp ielem)
  show ?case
  proof (cases "ielem < elems nhp")
    case False
    with "1.prems" show ?thesis by (subst (asm) GetXRange_norm.simps) simp
  next
    case True
    from True "1.prems"(1) obtain nhp1 where
      n: "normalizepdf nhp ielem = Some nhp1" and
      r: "GetXRange_norm nhp1 (ielem + 1) = Some nhp'"
      by (subst (asm) GetXRange_norm.simps) (auto split: option.splits)
    have w: "wellformed nhp1"
      using normalizepdf_fields[OF n] "1.prems"(2) by (simp add: wellformed_def)
    from "1.IH"[OF True n r w] normalizepdf_fields[OF n] show ?thesis by simp
  qed
qed

lemma GetXRange_rows:
  assumes "wellformed nhp" "GetXRange mem nhp prob junk = Some (Returns rows, nhp')"
  shows "wellformed nhp' \<and> normalized nhp' \<and> elems nhp' = elems nhp \<and> nbins nhp' = nbins nhp \<and>
         xl nhp' = xl nhp \<and> deltax nhp' = deltax nhp \<and>
         rows = scan_rows nhp' (ddiv prob (Fin 2)) (dsub (Fin 1) (ddiv prob (Fin 2)))
                  (rows_of nhp') junk"
proof -
  have w: "wellformed nhp' \<and> normalized nhp' \<and> elems nhp' = elems nhp \<and> nbins nhp' = nbins nhp \<and>
         xl nhp' = xl nhp \<and> deltax nhp' = deltax nhp"
    using assms
    by (auto simp: GetXRange_def Let_def wellformed_def split: option.splits if_splits
        dest!: GetXRange_norm_wf[unfolded wellformed_def])
  have "GetXRange_loop nhp' (ddiv prob (Fin 2)) (dsub (Fin 1) (ddiv prob (Fin 2))) 0 junk = Some rows"
    using assms(2)
    by (auto simp: GetXRange_def Let_def split: option.splits if_splits)
  with w show ?thesis
    by (simp add: GetXRange_loop_rows rows_of_def)
qed

lemma GetXRange_row:
  assumes "wellformed nhp" "GetXRange mem nhp prob junk = Some (Returns rows, nhp')"
    "0 \<le> i" "i < elems nhp"
  shows "rows ! nat i =
     scan nhp' (row nhp' i) (ddiv prob (Fin 2)) (dsub (Fin 1) (ddiv prob (Fin 2)))
       (if i = 0 then junk else rows ! (nat i - 1))"
proof -
  note R = GetXRange_rows[OF assms(1,2)]
  have i: "0 \<le> i" "i < elems nhp'" using assms R by simp_all
  note N = scan_rows_nth[OF rows_of_nth(1)[OF i], of nhp'
        "ddiv prob (Fin 2)" "dsub (Fin 1) (ddiv prob (Fin 2))" junk]
  have N': "rows ! nat i =
     scan nhp' (row nhp' i) (ddiv prob (Fin 2)) (dsub (Fin 1) (ddiv prob (Fin 2)))
       (if nat i = 0 then junk else rows ! (nat i - 1))"
    using N R rows_of_nth(2)[OF i] by simp
  have "(nat i = 0) = (i = 0)" using assms(3) by auto
  with N' show ?thesis by (simp only:)
qed

lemma GetXRange_again:
  assumes "GetXRange mem nhp prob junk = Some (Returns rows, nhp')"
  shows "GetXRange mem nhp' prob junk = Some (Returns rows, nhp')"
proof -
  have n: "normalized nhp'" using assms by (rule GetXRange_normalized)
  have "mem \<and> 0 \<le> elems nhp' \<and>
      GetXRange_loop nhp' (ddiv prob (Fin 2)) (dsub (Fin 1) (ddiv prob (Fin 2))) 0 junk = Some rows"
    using assms by (auto simp: GetXRange_def Let_def split: option.splits if_splits)
  with n show ?thesis by (simp add: GetXRange_def Let_def)
qed

subsection \<open>The example histograms\<close>


lemma hist23_accumulated:
  "accumulate_all fresh23 [samples [Fin 0, Fin 2], samples [Fin 1, Fin 7]] = Some hist23"
  by code_simp

lemma wellformed_hist23: "wellformed hist23"
  by (simp add: wellformed_def hist23_def fresh23_def)

lemma GetXRange_hist23_fifth:
  "GetXRange True hist23 (Fin (1 / 5)) (Fin 7, Fin 8) =
     Some (Returns [(Fin (- 1), Fin 1), (Fin 1, Fin 2)], pdf23)"
  by code_simp

lemma GetXRange_hist23_zero:
  "GetXRange True hist23 (Fin 0) (Fin 7, Fin 8) =
     Some (Returns [(Fin (- 1), Fin 8), (Fin 1, Fin 8)], pdf23)"
  by code_simp

subsection \<open>What \<open>GetXRange\<close> records for each variable\<close>

text \<open>
  The scan for any tail probability, whatever the order of the two thresholds. If the
  running mass of row \<open>i\<close> first exceeds \<open>pu\<close> at bin \<open>nu\<close>, the upper bound is
  \<open>lower + binWidth * nu\<close> and the lower bound is recorded at the first bin among
  \<open>0..nu\<close> whose running mass exceeds \<open>pl\<close>; if it never exceeds \<open>pu\<close>, the lower
  bound is recorded at the first bin of the whole row that exceeds \<open>pl\<close>.
\<close>

lemma GetXRange_scan_any_tail:
  assumes "wellformed nhp" "GetXRange mem nhp prob junk = Some (Returns rows, nhp')"
    "0 \<le> i" "i < elems nhp"
  shows
   "(\<forall>nu. crossing (row nhp' i) (dsub (Fin 1) (ddiv prob (Fin 2))) = Some nu \<longrightarrow>
       snd (rows ! nat i) = edge nhp' (int nu) \<and>
       fst (rows ! nat i) =
         (case crossing (take (Suc nu) (row nhp' i)) (ddiv prob (Fin 2)) of
            Some nl \<Rightarrow> edge nhp' (int nl - 1)
          | None \<Rightarrow> fst (if i = 0 then junk else rows ! (nat i - 1)))) \<and>
    (crossing (row nhp' i) (dsub (Fin 1) (ddiv prob (Fin 2))) = None \<longrightarrow>
       fst (rows ! nat i) =
         (case crossing (row nhp' i) (ddiv prob (Fin 2)) of
            Some nl \<Rightarrow> edge nhp' (int nl - 1)
          | None \<Rightarrow> fst (if i = 0 then junk else rows ! (nat i - 1)))) \<and>
    (\<not> dgt prob (Fin 1) \<longrightarrow>
       (\<forall>nu. crossing (row nhp' i) (dsub (Fin 1) (ddiv prob (Fin 2))) = Some nu \<longrightarrow>
          (\<exists>nl\<le>nu. crossing (row nhp' i) (ddiv prob (Fin 2)) = Some nl \<and>
             fst (rows ! nat i) = edge nhp' (int nl - 1))))"
proof -
  note S = GetXRange_row[OF assms]
  have c: "\<exists>nl\<le>nu. crossing (row nhp' i) (ddiv prob (Fin 2)) = Some nl \<and>
             fst (rows ! nat i) = edge nhp' (int nl - 1)"
    if p: "\<not> dgt prob (Fin 1)"
      and u: "crossing (row nhp' i) (dsub (Fin 1) (ddiv prob (Fin 2))) = Some nu" for nu
  proof -
    from crossing_below[OF u dgt_tail_thresholds[OF p]] obtain nl where
      "nl \<le> nu" "crossing (row nhp' i) (ddiv prob (Fin 2)) = Some nl"
      "crossing (take (Suc nu) (row nhp' i)) (ddiv prob (Fin 2)) = Some nl"
      by blast
    then show ?thesis using S u by (auto simp: scan_def)
  qed
  show ?thesis
  proof (intro conjI allI impI)
    fix nu
    assume "\<not> dgt prob (Fin 1)"
      "crossing (row nhp' i) (dsub (Fin 1) (ddiv prob (Fin 2))) = Some nu"
    then show "\<exists>nl\<le>nu. crossing (row nhp' i) (ddiv prob (Fin 2)) = Some nl \<and>
             fst (rows ! nat i) = edge nhp' (int nl - 1)"
      by (rule c)
  qed (simp_all add: S scan_def)
qed





subsection \<open>Bounds that are not recorded\<close>

text \<open>
  C9: when the running mass of variable \<open>i\<close> never exceeds \<open>pu\<close>, the upper bound
  \<open>GetXRange\<close> returns for it is the one returned for variable \<open>i - 1\<close>, and for the
  first variable it is what the local \<open>xu\<close> held when the function was entered.
\<close>

theorem GetXRange_upper_unset:
  assumes "wellformed nhp" "GetXRange mem nhp prob junk = Some (Returns rows, nhp')"
    "0 \<le> i" "i < elems nhp"
    "crossing (row nhp' i) (dsub (Fin 1) (ddiv prob (Fin 2))) = None"
  shows "snd (rows ! nat i) = (if i = 0 then snd junk else snd (rows ! (nat i - 1)))"
  using GetXRange_row[OF assms(1-4)] assms(5) by (simp add: scan_def)

theorem GetXRange_upper_unset_witness:
  "wellformed hist23 \<and>
   GetXRange True hist23 (Fin 0) (Fin 7, Fin 8) =
     Some (Returns [(Fin (- 1), Fin 8), (Fin 1, Fin 8)], pdf23) \<and>
   crossing (row pdf23 0) (dsub (Fin 1) (ddiv (Fin 0) (Fin 2))) = None \<and>
   crossing (row pdf23 1) (dsub (Fin 1) (ddiv (Fin 0) (Fin 2))) = None \<and>
   snd ([(Fin (- 1), Fin 8), (Fin 1, Fin 8)] ! nat 0) = snd (Fin 7, Fin 8) \<and>
   snd ([(Fin (- 1), Fin 8), (Fin 1, Fin 8)] ! nat 1) =
     snd ([(Fin (- 1), Fin 8), (Fin 1, Fin 8)] ! (nat 1 - 1))"
proof -
  have e: "(0::int) \<le> 0" "0 < elems hist23" "(0::int) \<le> 1" "1 < elems hist23"
    by (simp_all add: hist23_def fresh23_def)
  have c0: "crossing (row pdf23 0) (dsub (Fin 1) (ddiv (Fin 0) (Fin 2))) = None"
    by code_simp
  have c1: "crossing (row pdf23 1) (dsub (Fin 1) (ddiv (Fin 0) (Fin 2))) = None"
    by code_simp
  from GetXRange_upper_unset[OF wellformed_hist23 GetXRange_hist23_zero e(1,2) c0]
  have a: "snd ([(Fin (- 1), Fin 8), (Fin 1, Fin 8)] ! nat 0) = snd (Fin 7, Fin 8)"
    by simp
  from GetXRange_upper_unset[OF wellformed_hist23 GetXRange_hist23_zero e(3,4) c1]
  have b: "snd ([(Fin (- 1), Fin 8), (Fin 1, Fin 8)] ! nat 1) =
     snd ([(Fin (- 1), Fin 8), (Fin 1, Fin 8)] ! (nat 1 - 1))"
    by simp
  from wellformed_hist23 GetXRange_hist23_zero c0 c1 a b show ?thesis by (intro conjI)
qed

subsection \<open>A lower bound one bin to the left of bin 0\<close>





subsection \<open>Calling \<open>GetXRange\<close> twice\<close>

text \<open>
  C7, as amended: after a call of \<open>GetXRange\<close> on a well-formed histogram has returned,
  a second call with the same tail probability leaves the histogram as the first call
  left it, and returns the same rows when the locals hold the same values on entry; it
  returns the same rows whatever the locals hold when there is no variable or the scan
  of the first variable records both of its bounds.
\<close>

theorem GetXRange_twice:
  assumes "wellformed nhp" "GetXRange mem nhp prob junk = Some (Returns rows, nhp')"
  shows "GetXRange mem nhp' prob junk = Some (Returns rows, nhp') \<and>
     (elems nhp = 0 \<or>
      (\<exists>nu nl. crossing (row nhp' 0) (dsub (Fin 1) (ddiv prob (Fin 2))) = Some nu \<and>
         crossing (take (Suc nu) (row nhp' 0)) (ddiv prob (Fin 2)) = Some nl) \<longrightarrow>
      (\<forall>junk'. GetXRange mem nhp' prob junk' = Some (Returns rows, nhp')))"
proof (intro conjI impI allI)
  show "GetXRange mem nhp' prob junk = Some (Returns rows, nhp')"
    using assms(2) by (rule GetXRange_again)
next
  fix junk'
  assume c: "elems nhp = 0 \<or>
      (\<exists>nu nl. crossing (row nhp' 0) (dsub (Fin 1) (ddiv prob (Fin 2))) = Some nu \<and>
         crossing (take (Suc nu) (row nhp' 0)) (ddiv prob (Fin 2)) = Some nl)"
  note R = GetXRange_rows[OF assms]
  have m: "mem \<and> 0 \<le> elems nhp'"
    using assms(2) by (auto simp: GetXRange_def Let_def split: option.splits if_splits)
  have "scan_rows nhp' (ddiv prob (Fin 2)) (dsub (Fin 1) (ddiv prob (Fin 2))) (rows_of nhp') junk' =
        scan_rows nhp' (ddiv prob (Fin 2)) (dsub (Fin 1) (ddiv prob (Fin 2))) (rows_of nhp') junk"
  proof (cases "elems nhp = 0")
    case True
    with R show ?thesis by (simp add: rows_of_def)
  next
    case False
    with c obtain nu nl where
      "crossing (row nhp' 0) (dsub (Fin 1) (ddiv prob (Fin 2))) = Some nu"
      "crossing (take (Suc nu) (row nhp' 0)) (ddiv prob (Fin 2)) = Some nl"
      by blast
    note s = scan_both_set[OF this, of nhp' junk' junk]
    from False R m have "0 < elems nhp'" by simp
    from rows_of_Cons[OF this] s show ?thesis by simp
  qed
  with R m show "GetXRange mem nhp' prob junk' = Some (Returns rows, nhp')"
    by (simp add: GetXRange_def Let_def GetXRange_loop_rows rows_of_def)
qed

theorem GetXRange_twice_witness:
  "wellformed hist23 \<and>
   GetXRange True hist23 (Fin (1 / 5)) (Fin 7, Fin 8) =
     Some (Returns [(Fin (- 1), Fin 1), (Fin 1, Fin 2)], pdf23) \<and>
   crossing (row pdf23 0) (dsub (Fin 1) (ddiv (Fin (1 / 5)) (Fin 2))) = Some 1 \<and>
   crossing (take (Suc 1) (row pdf23 0)) (ddiv (Fin (1 / 5)) (Fin 2)) = Some 0 \<and>
   GetXRange True pdf23 (Fin (1 / 5)) (Fin 7, Fin 8) =
     Some (Returns [(Fin (- 1), Fin 1), (Fin 1, Fin 2)], pdf23) \<and>
   GetXRange True pdf23 (Fin (1 / 5)) (NaN, PInf) =
     Some (Returns [(Fin (- 1), Fin 1), (Fin 1, Fin 2)], pdf23)"
proof -
  have c1: "crossing (row pdf23 0) (dsub (Fin 1) (ddiv (Fin (1 / 5)) (Fin 2))) = Some 1"
    by code_simp
  have c2: "crossing (take (Suc 1) (row pdf23 0)) (ddiv (Fin (1 / 5)) (Fin 2)) = Some 0"
    by code_simp
  note T = GetXRange_twice[OF wellformed_hist23 GetXRange_hist23_fifth]
  from T have a: "GetXRange True pdf23 (Fin (1 / 5)) (Fin 7, Fin 8) =
     Some (Returns [(Fin (- 1), Fin 1), (Fin 1, Fin 2)], pdf23)"
    by blast
  from T c1 c2 have b: "GetXRange True pdf23 (Fin (1 / 5)) (NaN, PInf) =
     Some (Returns [(Fin (- 1), Fin 1), (Fin 1, Fin 2)], pdf23)"
    by blast
  from wellformed_hist23 GetXRange_hist23_fifth c1 c2 a b show ?thesis by (intro conjI)
qed

text \<open>
  The claim as stated fails where a bound is not recorded. With the tail probability 0
  no running mass exceeds \<open>pu = 1\<close>, the upper bounds are what the local \<open>xu\<close> held on
  entry, and two calls that find different values there return different rows.
\<close>

theorem GetXRange_twice_unset_differs:
  "GetXRange True hist23 (Fin 0) (Fin 7, Fin 8) =
     Some (Returns [(Fin (- 1), Fin 8), (Fin 1, Fin 8)], pdf23) \<and>
   GetXRange True pdf23 (Fin 0) (Fin 7, Fin 9) =
     Some (Returns [(Fin (- 1), Fin 9), (Fin 1, Fin 9)], pdf23) \<and>
   [(Fin (- 1), Fin 8), (Fin 1, Fin 8)] \<noteq> [(Fin (- 1), Fin 9), (Fin 1, Fin (9::real))]"
  by code_simp

subsection \<open>What \<open>UpdateNHArray\<close> does to the rows\<close>

lemma row_update:
  assumes "wellformed nhp" "0 \<le> i" "i < elems nhp" "0 \<le> n" "n < nbins nhp"
    "0 \<le> j" "j < elems nhp"
  shows "row (nhp\<lparr>dbuffer := (dbuffer nhp)[nat (i * nbins nhp + n) := v]\<rparr>) j =
           (if j = i then (row nhp i)[nat n := v] else row nhp j)"
proof -
  have z: "0 \<le> i * nbins nhp" "0 \<le> j * nbins nhp" "0 \<le> nbins nhp"
    using assms by (simp_all add: wellformed_def)
  consider "j = i" | "j < i" | "i < j" by linarith
  then show ?thesis
  proof cases
    case 1
    have "nat (i * nbins nhp + n) - nat (i * nbins nhp) = nat n"
      "nat (i * nbins nhp) \<le> nat (i * nbins nhp + n)"
      using z(1) assms(4) by arith+
    then show ?thesis
      using 1 by (simp add: row_def getpdfptr_def drop_update_swap take_update_swap)
  next
    case 2
    then have "(j + 1) * nbins nhp \<le> i * nbins nhp"
      using assms by (intro mult_right_mono) (auto simp: wellformed_def)
    then have "j * nbins nhp + nbins nhp \<le> i * nbins nhp"
      by (simp add: algebra_simps)
    then have b: "nat (nbins nhp) \<le> nat (i * nbins nhp + n) - nat (j * nbins nhp)"
      "nat (j * nbins nhp) \<le> nat (i * nbins nhp + n)"
      using z assms(4) by arith+
    with 2 show ?thesis
      by (simp add: row_def getpdfptr_def drop_update_swap)
  next
    case 3
    then have "(i + 1) * nbins nhp \<le> j * nbins nhp"
      using assms by (intro mult_right_mono) (auto simp: wellformed_def)
    then have "i * nbins nhp + nbins nhp \<le> j * nbins nhp"
      by (simp add: algebra_simps)
    then have "nat (i * nbins nhp + n) < nat (j * nbins nhp)"
      using z assms(4,5) by arith
    with 3 show ?thesis
      by (simp add: row_def getpdfptr_def)
  qed
qed

lemma updatevalue_conv_effect:
  assumes "wellformed nhp" "0 \<le> i" "i < elems nhp" "updatevalue_conv conv nhp i val = Some nhp'"
  shows "\<exists>n. 0 \<le> n \<and> n < nbins nhp \<and>
           nhp' = nhp\<lparr>dbuffer := (dbuffer nhp)[nat (i * nbins nhp + n) :=
                     dadd (dbuffer nhp ! nat (i * nbins nhp + n)) (Fin 1)]\<rparr>"
proof -
  define nbin0 where "nbin0 = conv (rint (ddiv (dsub val (xl nhp)) (deltax nhp)))"
  define nbin1 where "nbin1 = (if nbin0 < 0 then 0 else nbin0)"
  define nbin where "nbin = (if nbin1 > nbinsm1 nhp then nbinsm1 nhp else nbin1)"
  from assms(4) have
    r: "0 \<le> i * nbins nhp + nbin" "i * nbins nhp + nbin < int (length (dbuffer nhp))" and
    h: "nhp' = nhp\<lparr>dbuffer := (dbuffer nhp)[nat (i * nbins nhp + nbin) :=
                     dadd (dbuffer nhp ! nat (i * nbins nhp + nbin)) (Fin 1)]\<rparr>"
    by (auto simp: updatevalue_conv_def Let_def nbin_def nbin1_def nbin0_def rd_def wr_def
        getpdfptr_def split: option.splits if_splits)
  have "0 < nbins nhp"
  proof (rule ccontr)
    assume "\<not> 0 < nbins nhp"
    with assms(1) have "nbins nhp = 0" by (simp add: wellformed_def)
    with assms(1) r show False by (simp add: wellformed_def)
  qed
  with assms(1) have "0 \<le> nbin \<and> nbin < nbins nhp"
    by (auto simp: nbin_def nbin1_def wellformed_def)
  with h show ?thesis by blast
qed


lemma updatevalue_conv_refines:
  assumes "updatevalue nhp i val = Some nhp'" "\<And>x k. d2i x = Some k \<Longrightarrow> conv x = k"
  shows "updatevalue_conv conv nhp i val = Some nhp'"
proof -
  from assms(1) obtain k where
    k: "d2i (rint (ddiv (dsub val (xl nhp)) (deltax nhp))) = Some k"
    by (auto simp: updatevalue_def Let_def split: option.splits)
  from assms(2)[OF k] assms(1) k show ?thesis
    by (simp add: updatevalue_def updatevalue_conv_def Let_def)
qed

lemma UpdateNHArray_loop_conv_rows:
  "UpdateNHArray_loop_conv conv nhp a ipt = Some nhp' \<Longrightarrow> wellformed nhp \<Longrightarrow> 0 \<le> ipt \<Longrightarrow>
   wellformed nhp' \<and> elems nhp' = elems nhp \<and> nbins nhp' = nbins nhp \<and>
   normalized nhp' = normalized nhp \<and> xl nhp' = xl nhp \<and> deltax nhp' = deltax nhp \<and>
   (\<forall>j. 0 \<le> j \<and> j < elems nhp \<longrightarrow>
      (if ipt \<le> j
       then \<exists>n<nat (nbins nhp). row nhp' j = (row nhp j)[n := dadd (row nhp j ! n) (Fin 1)]
       else row nhp' j = row nhp j))"
proof (induction conv nhp a ipt rule: UpdateNHArray_loop_conv.induct)
  case (1 conv nhp a ipt)
  show ?case
  proof (cases "ipt < elems nhp")
    case False
    with "1.prems" show ?thesis
      by (subst (asm) UpdateNHArray_loop_conv.simps) auto
  next
    case True
    from True "1.prems"(1) obtain v nhp1 where
      v: "rd (data a) ipt = Some v" and
      u: "updatevalue_conv conv nhp ipt v = Some nhp1" and
      r: "UpdateNHArray_loop_conv conv nhp1 a (ipt + 1) = Some nhp'"
      by (subst (asm) UpdateNHArray_loop_conv.simps) (auto split: option.splits)
    from updatevalue_conv_effect[OF "1.prems"(2,3) True u] obtain n where
      n: "0 \<le> n" "n < nbins nhp" and
      h1: "nhp1 = nhp\<lparr>dbuffer := (dbuffer nhp)[nat (ipt * nbins nhp + n) :=
                     dadd (dbuffer nhp ! nat (ipt * nbins nhp + n)) (Fin 1)]\<rparr>"
      by blast
    have w1: "wellformed nhp1" using "1.prems"(2) h1 by (simp add: wellformed_def)
    have f1: "elems nhp1 = elems nhp" "nbins nhp1 = nbins nhp"
      using h1 by simp_all
    have e: "dbuffer nhp ! nat (ipt * nbins nhp + n) = row nhp ipt ! nat n"
      using rd_row[OF "1.prems"(2,3) True n]
        row_index_bound[OF "1.prems"(3) True n] "1.prems"(2,3) n
      by (simp add: rd_def getpdfptr_def wellformed_def split: if_splits)
    have rows1: "row nhp1 j = (if j = ipt then (row nhp ipt)[nat n := dadd (row nhp ipt ! nat n) (Fin 1)]
                               else row nhp j)"
      if "0 \<le> j" "j < elems nhp" for j
      unfolding h1 e using row_update[OF "1.prems"(2,3) True n that] .
    from "1.IH"[OF True v u r w1] "1.prems"(3)
    have IH: "wellformed nhp'" "elems nhp' = elems nhp1" "nbins nhp' = nbins nhp1"
      "normalized nhp' = normalized nhp1" "xl nhp' = xl nhp1" "deltax nhp' = deltax nhp1"
      "\<And>j. 0 \<le> j \<Longrightarrow> j < elems nhp1 \<Longrightarrow>
        (if ipt + 1 \<le> j
         then \<exists>n<nat (nbins nhp1). row nhp' j = (row nhp1 j)[n := dadd (row nhp1 j ! n) (Fin 1)]
         else row nhp' j = row nhp1 j)"
      by simp_all
    have "if ipt \<le> j
       then \<exists>n<nat (nbins nhp). row nhp' j = (row nhp j)[n := dadd (row nhp j ! n) (Fin 1)]
       else row nhp' j = row nhp j" if j: "0 \<le> j" "j < elems nhp" for j
    proof -
      consider "j < ipt" | "j = ipt" | "ipt + 1 \<le> j" by linarith
      then show ?thesis
      proof cases
        case 1
        with IH(7)[of j] j f1 rows1[OF j] show ?thesis by simp
      next
        case 2
        have "nat n < nat (nbins nhp)" using n by simp
        moreover have "row nhp' j = (row nhp j)[nat n := dadd (row nhp j ! nat n) (Fin 1)]"
          using 2 IH(7)[of j] j f1 rows1[OF j] by simp
        ultimately have "\<exists>m<nat (nbins nhp).
            row nhp' j = (row nhp j)[m := dadd (row nhp j ! m) (Fin 1)]"
          by blast
        then show ?thesis using 2 by simp
      next
        case 3
        with IH(7)[of j] j f1 rows1[OF j] show ?thesis by simp
      qed
    qed
    with IH(1-6) f1 h1 show ?thesis by simp
  qed
qed



lemma sum_list_incr:
  "n < length cs \<Longrightarrow> sum_list (cs[n := Suc (cs ! n)]) = Suc (sum_list cs)"
  by (induction cs arbitrary: n) (auto split: nat.splits)

lemma counts_incr:
  "n < length cs \<Longrightarrow> (counts cs)[n := dadd (counts cs ! n) (Fin 1)] = counts (cs[n := Suc (cs ! n)])"
  by (simp add: counts_def map_update add.commute)

lemma length_counts: "length (counts cs) = length cs"
  by (simp add: counts_def)

lemma UpdateNHArray_conv_raw_rows:
  assumes "UpdateNHArray_conv conv nhp a = Some (Returns u, nhp')" "wellformed nhp" "raw_rows nhp k"
  shows "wellformed nhp' \<and> \<not> normalized nhp' \<and> elems nhp' = elems nhp \<and> nbins nhp' = nbins nhp \<and>
         xl nhp' = xl nhp \<and> deltax nhp' = deltax nhp \<and> raw_rows nhp' (Suc k)"
proof -
  from assms(1) have nn: "\<not> normalized nhp" and
    l: "UpdateNHArray_loop_conv conv nhp a 0 = Some nhp'"
    by (auto simp: UpdateNHArray_conv_def split: if_splits list.splits option.splits)
  note L = UpdateNHArray_loop_conv_rows[OF l assms(2), simplified]
  have "\<exists>cs. row nhp' j = counts cs \<and> sum_list cs = Suc k" if j: "0 \<le> j" "j < elems nhp" for j
  proof -
    from assms(3) j obtain cs where cs: "row nhp j = counts cs" "sum_list cs = k"
      by (auto simp: raw_rows_def)
    from L j obtain n where n: "n < nat (nbins nhp)"
      "row nhp' j = (row nhp j)[n := dadd (row nhp j ! n) (Fin 1)]"
      by auto
    have "length cs = nat (nbins nhp)"
      using length_row[OF assms(2) j] cs by (simp add: length_counts)
    with n cs have "row nhp' j = counts (cs[n := Suc (cs ! n)])"
      "sum_list (cs[n := Suc (cs ! n)]) = Suc k"
      by (simp_all add: counts_incr sum_list_incr)
    then show ?thesis by blast
  qed
  with L nn show ?thesis by (simp add: raw_rows_def)
qed

lemma accumulate_all_conv_raw_rows:
  "accumulate_all_conv conv nhp as = Some nhp' \<Longrightarrow> wellformed nhp \<Longrightarrow> \<not> normalized nhp \<Longrightarrow> raw_rows nhp k \<Longrightarrow>
   wellformed nhp' \<and> \<not> normalized nhp' \<and> elems nhp' = elems nhp \<and> nbins nhp' = nbins nhp \<and>
   xl nhp' = xl nhp \<and> deltax nhp' = deltax nhp \<and> raw_rows nhp' (k + length as)"
proof (induction as arbitrary: nhp k)
  case Nil
  then show ?case by simp
next
  case (Cons a as)
  from Cons.prems(1) obtain u nhp1 where
    u: "UpdateNHArray_conv conv nhp a = Some (Returns u, nhp1)" and
    r: "accumulate_all_conv conv nhp1 as = Some nhp'"
    by (auto split: option.splits prod.splits result.splits)
  note U = UpdateNHArray_conv_raw_rows[OF u Cons.prems(2,4)]
  from Cons.IH[OF r, of "Suc k"] U show ?case by simp
qed




lemma UpdateNHArray_loop_conv_refines:
  "UpdateNHArray_loop nhp a ipt = Some nhp' \<Longrightarrow> (\<And>x k. d2i x = Some k \<Longrightarrow> conv x = k) \<Longrightarrow>
   UpdateNHArray_loop_conv conv nhp a ipt = Some nhp'"
proof (induction nhp a ipt rule: UpdateNHArray_loop.induct)
  case (1 nhp a ipt)
  show ?case
  proof (cases "ipt < elems nhp")
    case False
    with "1.prems"(1) show ?thesis
      by (subst UpdateNHArray_loop_conv.simps, subst (asm) UpdateNHArray_loop.simps) simp
  next
    case True
    from True "1.prems"(1) obtain v nhp1 where
      v: "rd (data a) ipt = Some v" and
      u: "updatevalue nhp ipt v = Some nhp1" and
      r: "UpdateNHArray_loop nhp1 a (ipt + 1) = Some nhp'"
      by (subst (asm) UpdateNHArray_loop.simps) (auto split: option.splits)
    from "1.IH"[OF True v u r "1.prems"(2)] updatevalue_conv_refines[OF u "1.prems"(2)]
    show ?thesis
      by (subst UpdateNHArray_loop_conv.simps) (simp add: True v)
  qed
qed

lemma UpdateNHArray_conv_refines:
  assumes "UpdateNHArray nhp a = Some r" "\<And>x k. d2i x = Some k \<Longrightarrow> conv x = k"
  shows "UpdateNHArray_conv conv nhp a = Some r"
  using assms(1) UpdateNHArray_loop_conv_refines[of nhp a 0 _ conv, OF _ assms(2)]
  by (auto simp: UpdateNHArray_def UpdateNHArray_conv_def split: if_splits list.splits option.splits)

lemma accumulate_all_conv_refines:
  "accumulate_all nhp as = Some nhp' \<Longrightarrow> (\<And>x k. d2i x = Some k \<Longrightarrow> conv x = k) \<Longrightarrow>
   accumulate_all_conv conv nhp as = Some nhp'"
proof (induction as arbitrary: nhp)
  case Nil
  then show ?case by simp
next
  case (Cons a as)
  from Cons.prems(1) obtain u nhp1 where
    u: "UpdateNHArray nhp a = Some (Returns u, nhp1)" and
    r: "accumulate_all nhp1 as = Some nhp'"
    by (auto split: option.splits prod.splits result.splits)
  from UpdateNHArray_conv_refines[OF u Cons.prems(2)] Cons.IH[OF r Cons.prems(2)]
  show ?case by simp
qed

lemma x86_d2i_agrees: "d2i x = Some k \<Longrightarrow> x86_d2i x = k"
  by (simp add: x86_d2i_def)

lemma accumulate_all_raw_rows:
  assumes "accumulate_all nhp as = Some nhp'" "wellformed nhp" "\<not> normalized nhp" "raw_rows nhp k"
  shows "wellformed nhp' \<and> \<not> normalized nhp' \<and> elems nhp' = elems nhp \<and> nbins nhp' = nbins nhp \<and>
   xl nhp' = xl nhp \<and> deltax nhp' = deltax nhp \<and> raw_rows nhp' (k + length as)"
  using accumulate_all_conv_raw_rows[OF accumulate_all_conv_refines[OF assms(1) x86_d2i_agrees]
      assms(2-4)] .

lemma CreateNHArray_raw_rows:
  assumes "CreateNHArray mem lo hi nb ne = Some (Returns nhp)" "0 < ne"
  shows "wellformed nhp \<and> \<not> normalized nhp \<and> elems nhp = ne \<and> nbins nhp = nb \<and> raw_rows nhp 0"
proof -
  from assms have h: "nhp = \<lparr>xl = lo, xu = hi, nbins = nb, nbinsm1 = nb - 1,
         deltax = ddiv (dsub hi lo) (i2d (nb - 1)), elems = ne,
         dbuffer = replicate (nat (ne * nb)) (Fin 0), normalized = False\<rparr>"
    and p: "0 \<le> ne * nb"
    by (auto simp: CreateNHArray_def split: if_splits)
  from p assms(2) have nb: "0 \<le> nb" by (simp add: zero_le_mult_iff)
  have "row nhp j = counts (replicate (min (nat nb) (nat (ne * nb) - nat (j * nb))) 0)" for j
    by (simp add: h row_def getpdfptr_def counts_def)
  then have "raw_rows nhp 0" by (auto simp: raw_rows_def)
  with h p nb assms(2) show ?thesis by (simp add: wellformed_def)
qed

lemma updatevalue_clamped:
  assumes "wellformed nhp" "0 < nbins nhp" "0 \<le> i" "i < elems nhp"
    and "d2i (rint (ddiv (dsub val (xl nhp)) (deltax nhp))) = Some k"
  shows "\<exists>nhp'. updatevalue nhp i val = Some nhp' \<and>
           row nhp' i = (row nhp i)[nat (max 0 (min k (nbins nhp - 1))) :=
                          dadd (row nhp i ! nat (max 0 (min k (nbins nhp - 1)))) (Fin 1)]"
proof -
  define n where "n = max 0 (min k (nbins nhp - 1))"
  have n: "0 \<le> n" "n < nbins nhp" using assms(2) by (auto simp: n_def)
  have c: "(if (if k < 0 then 0 else k) > nbinsm1 nhp then nbinsm1 nhp
            else (if k < 0 then 0 else k)) = n"
    using assms(1,2) by (auto simp: n_def wellformed_def)
  note r = rd_row[OF assms(1,3,4) n]
  have b: "0 \<le> getpdfptr nhp i + n" "getpdfptr nhp i + n < int (length (dbuffer nhp))"
    using r by (auto simp: rd_def split: if_splits)
  have u: "updatevalue nhp i val = Some (nhp\<lparr>dbuffer := (dbuffer nhp)[nat (i * nbins nhp + n) :=
                          dadd (row nhp i ! nat n) (Fin 1)]\<rparr>)"
    using r b by (simp add: updatevalue_def assms(5) Let_def c wr_def getpdfptr_def)
  show ?thesis
    unfolding u n_def[symmetric]
    using row_update[OF assms(1,3,4) n assms(3,4)] by simp
qed



text \<open>
  C3: the sample \<open>1e10\<close> on the histogram of the scenario (\<open>lower = 0\<close>, bin width 1).
  The rounded quotient \<open>1e10\<close> does not fit an \<open>int\<close>, so the conversion that comes
  before the clamp is undefined, and with it the whole update.
\<close>

theorem updatevalue_huge_sample:
  "CreateNHArray True (Fin 0) (Fin 10) 11 1 = Some (Returns fresh11) \<and>
   d2i (rint (ddiv (dsub (Fin 10000000000) (xl fresh11)) (deltax fresh11))) = None \<and>
   updatevalue fresh11 0 (Fin 10000000000) = None \<and>
   UpdateNHArray fresh11 (samples [Fin 10000000000]) = None"
  by code_simp

subsection \<open>The summation and the division of \<open>normalizepdf\<close>\<close>

lemma normalizepdf_sum_rec:
  "wellformed nhp \<Longrightarrow> 0 \<le> i \<Longrightarrow> i < elems nhp \<Longrightarrow> pdf = getpdfptr nhp i \<Longrightarrow>
   0 \<le> nbin \<Longrightarrow> nbin \<le> nbins nhp \<Longrightarrow>
   normalizepdf_sum nhp pdf nbin Nx = sum_rec Nx (drop (nat nbin) (row nhp i))"
proof (induction nhp pdf nbin Nx rule: normalizepdf_sum.induct)
  case (1 nhp pdf nbin Nx)
  show ?case
  proof (cases "nbin < nbins nhp")
    case False
    with "1.prems" show ?thesis
      by (subst normalizepdf_sum.simps) (simp add: length_row)
  next
    case True
    have r: "rd (dbuffer nhp) (pdf + nbin) = Some (row nhp i ! nat nbin)"
      using "1.prems" True by (simp add: rd_row)
    have d: "drop (nat nbin) (row nhp i) = row nhp i ! nat nbin # drop (nat (nbin + 1)) (row nhp i)"
      using "1.prems" True
      by (simp add: length_row nat_add_distrib Cons_nth_drop_Suc)
    have n: "0 \<le> nbin + 1" "nbin + 1 \<le> nbins nhp" using "1.prems" True by auto
    show ?thesis
    proof (cases "d2i (dadd (i2d Nx) (row nhp i ! nat nbin))")
      case None
      then show ?thesis
        by (subst normalizepdf_sum.simps) (simp add: r True d)
    next
      case (Some Nx')
      from "1.IH"[OF True r Some "1.prems"(1-4) n] Some show ?thesis
        by (subst normalizepdf_sum.simps) (simp add: r True d)
    qed
  qed
qed

lemma trunc_of_int: "trunc (of_int z) = z"
  by (simp add: trunc_def)

lemma sum_rec_counts:
  "0 \<le> Nx \<Longrightarrow> Nx \<le> INT_MAX \<Longrightarrow>
   sum_rec Nx (counts cs) =
     (if Nx + int (sum_list cs) \<le> INT_MAX then Some (Nx + int (sum_list cs)) else None)"
proof (induction cs arbitrary: Nx)
  case Nil
  then show ?case by (simp add: counts_def)
next
  case (Cons c cs)
  have "of_int Nx + real c = (of_int (Nx + int c) :: real)" by simp
  then have t: "trunc (of_int Nx + real c) = Nx + int c"
    by (simp only: trunc_of_int)
  show ?case
  proof (cases "Nx + int c \<le> INT_MAX")
    case True
    have "INT_MIN \<le> Nx + int c" using Cons.prems by (simp add: INT_MIN_def)
    with True have "d2i (dadd (i2d Nx) (Fin (real c))) = Some (Nx + int c)"
      by (simp add: i2d_def t)
    moreover have "0 \<le> Nx + int c" using Cons.prems by simp
    ultimately show ?thesis
      using Cons.IH[of "Nx + int c"] True by (simp add: counts_def add.assoc)
  next
    case False
    then have "d2i (dadd (i2d Nx) (Fin (real c))) = None"
      by (simp add: i2d_def t)
    with False show ?thesis by (simp add: counts_def)
  qed
qed

lemma normalizepdf_div_rows:
  "wellformed nhp \<Longrightarrow> 0 \<le> i \<Longrightarrow> i < elems nhp \<Longrightarrow> pdf = getpdfptr nhp i \<Longrightarrow>
   0 \<le> nbin \<Longrightarrow> nbin \<le> nbins nhp \<Longrightarrow>
   \<exists>nhp'. normalizepdf_div nhp pdf nbin Nx = Some nhp' \<and>
     row nhp' i = take (nat nbin) (row nhp i) @
                    map (\<lambda>v. ddiv v (i2d Nx)) (drop (nat nbin) (row nhp i)) \<and>
     (\<forall>j. 0 \<le> j \<and> j < elems nhp \<and> j \<noteq> i \<longrightarrow> row nhp' j = row nhp j)"
proof (induction nhp pdf nbin Nx rule: normalizepdf_div.induct)
  case (1 nhp pdf nbin Nx)
  show ?case
  proof (cases "nbin < nbins nhp")
    case False
    with "1.prems" show ?thesis
      by (subst normalizepdf_div.simps) (simp add: length_row)
  next
    case True
    let ?v = "row nhp i ! nat nbin"
    let ?buf = "(dbuffer nhp)[nat (i * nbins nhp + nbin) := ddiv ?v (i2d Nx)]"
    let ?h1 = "nhp\<lparr>dbuffer := ?buf\<rparr>"
    have r: "rd (dbuffer nhp) (pdf + nbin) = Some ?v"
      using "1.prems" True by (simp add: rd_row)
    then have w: "wr (dbuffer nhp) (pdf + nbin) (ddiv ?v (i2d Nx)) = Some ?buf"
      using "1.prems"(4) by (auto simp: rd_def wr_def getpdfptr_def split: if_splits)
    have w1: "wellformed ?h1" using "1.prems"(1) by (simp add: wellformed_def)
    have n: "0 \<le> nbin + 1" "nbin + 1 \<le> nbins ?h1" using "1.prems" True by auto
    have i1: "0 \<le> i" "i < elems ?h1" "pdf = getpdfptr ?h1 i"
      using "1.prems" by (simp_all add: getpdfptr_def)
    from "1.IH"[OF True r w w1 i1 n] obtain nhp' where
      d: "normalizepdf_div ?h1 pdf (nbin + 1) Nx = Some nhp'" and
      ri: "row nhp' i = take (nat (nbin + 1)) (row ?h1 i) @
                    map (\<lambda>v. ddiv v (i2d Nx)) (drop (nat (nbin + 1)) (row ?h1 i))" and
      rj: "\<And>j. 0 \<le> j \<Longrightarrow> j < elems nhp \<Longrightarrow> j \<noteq> i \<Longrightarrow> row nhp' j = row ?h1 j"
      by auto
    have rows1: "row ?h1 j = (if j = i then (row nhp i)[nat nbin := ddiv ?v (i2d Nx)] else row nhp j)"
      if "0 \<le> j" "j < elems nhp" for j
      using row_update[OF "1.prems"(1,2,3) "1.prems"(5) True that] .
    have l: "nat nbin < length (row nhp i)"
      using "1.prems" True by (simp add: length_row)
    have s: "nat (nbin + 1) = Suc (nat nbin)" using "1.prems"(5) by simp
    have "row nhp' i = take (nat nbin) (row nhp i) @
                    map (\<lambda>v. ddiv v (i2d Nx)) (drop (nat nbin) (row nhp i))"
      using l
      by (simp add: ri rows1[OF "1.prems"(2,3)] s take_Suc_conv_app_nth
          Cons_nth_drop_Suc[symmetric])
    moreover have "row nhp' j = row nhp j" if "0 \<le> j" "j < elems nhp" "j \<noteq> i" for j
      using rj[OF that] rows1[OF that(1,2)] that(3) by simp
    moreover have "normalizepdf_div nhp pdf nbin Nx = Some nhp'"
      by (subst normalizepdf_div.simps) (simp add: True r w d)
    ultimately show ?thesis by blast
  qed
qed

lemma normalizepdf_rows:
  assumes "wellformed nhp" "0 \<le> i" "i < elems nhp"
  shows "normalizepdf nhp i =
           (case sum_rec 0 (row nhp i) of
              None \<Rightarrow> None
            | Some Nx \<Rightarrow> Some ((the (normalizepdf_div nhp (getpdfptr nhp i) 0 Nx))\<lparr>normalized := True\<rparr>))"
    and "sum_rec 0 (row nhp i) = Some Nx \<Longrightarrow>
         \<exists>nhp'. normalizepdf nhp i = Some nhp' \<and> wellformed nhp' \<and> normalized nhp' \<and>
           elems nhp' = elems nhp \<and> nbins nhp' = nbins nhp \<and>
           row nhp' i = map (\<lambda>v. ddiv v (i2d Nx)) (row nhp i) \<and>
           (\<forall>j. 0 \<le> j \<and> j < elems nhp \<and> j \<noteq> i \<longrightarrow> row nhp' j = row nhp j)"
proof -
  have z: "(0::int) \<le> 0" "0 \<le> nbins nhp" using assms(1) by (simp_all add: wellformed_def)
  have s: "normalizepdf_sum nhp (getpdfptr nhp i) 0 0 = sum_rec 0 (row nhp i)"
    using normalizepdf_sum_rec[OF assms refl z, of 0] by simp
  have d: "\<exists>nhp'. normalizepdf_div nhp (getpdfptr nhp i) 0 N = Some nhp' \<and>
     row nhp' i = map (\<lambda>v. ddiv v (i2d N)) (row nhp i) \<and>
     (\<forall>j. 0 \<le> j \<and> j < elems nhp \<and> j \<noteq> i \<longrightarrow> row nhp' j = row nhp j)" for N
    using normalizepdf_div_rows[OF assms refl z, of N] by simp
  show "normalizepdf nhp i =
           (case sum_rec 0 (row nhp i) of
              None \<Rightarrow> None
            | Some Nx \<Rightarrow> Some ((the (normalizepdf_div nhp (getpdfptr nhp i) 0 Nx))\<lparr>normalized := True\<rparr>))"
  proof (cases "sum_rec 0 (row nhp i)")
    case None
    then show ?thesis by (simp add: normalizepdf_def s)
  next
    case (Some N)
    from d[of N] obtain nhp' where "normalizepdf_div nhp (getpdfptr nhp i) 0 N = Some nhp'"
      by blast
    with Some show ?thesis by (simp add: normalizepdf_def s)
  qed
  show "\<exists>nhp'. normalizepdf nhp i = Some nhp' \<and> wellformed nhp' \<and> normalized nhp' \<and>
           elems nhp' = elems nhp \<and> nbins nhp' = nbins nhp \<and>
           row nhp' i = map (\<lambda>v. ddiv v (i2d Nx)) (row nhp i) \<and>
           (\<forall>j. 0 \<le> j \<and> j < elems nhp \<and> j \<noteq> i \<longrightarrow> row nhp' j = row nhp j)"
    if N: "sum_rec 0 (row nhp i) = Some Nx"
  proof -
    from d[of Nx] obtain nhp1 where
      1: "normalizepdf_div nhp (getpdfptr nhp i) 0 Nx = Some nhp1"
      "row nhp1 i = map (\<lambda>v. ddiv v (i2d Nx)) (row nhp i)"
      "\<And>j. 0 \<le> j \<Longrightarrow> j < elems nhp \<Longrightarrow> j \<noteq> i \<Longrightarrow> row nhp1 j = row nhp j"
      by blast
    have n: "normalizepdf nhp i = Some (nhp1\<lparr>normalized := True\<rparr>)"
      using N 1(1) by (simp add: normalizepdf_def s)
    have r: "row (nhp1\<lparr>normalized := True\<rparr>) j = row nhp1 j" for j
      by (simp add: row_def getpdfptr_def)
    from normalizepdf_fields[OF n] assms(1) have "wellformed (nhp1\<lparr>normalized := True\<rparr>)"
      by (simp add: wellformed_def)
    with n normalizepdf_fields[OF n] 1(2,3) r show ?thesis
      by (intro exI[of _ "nhp1\<lparr>normalized := True\<rparr>"]) simp
  qed
qed

lemma ddiv_counts_zero: "sum_list cs = 0 \<Longrightarrow>
  map (\<lambda>v. ddiv v (i2d 0)) (counts cs) = replicate (length cs) NaN"
  by (induction cs) (simp_all add: counts_def i2d_def inf_of_sign_def)

lemma ddiv_counts_pos: "0 < N \<Longrightarrow>
  map (\<lambda>v. ddiv v (i2d (int N))) (counts cs) = map (\<lambda>c. Fin (real c / real N)) cs"
  by (simp add: counts_def i2d_def)

lemma ddiv_counts: 
  "map (\<lambda>v. ddiv v (i2d (int N))) (counts cs) = map (\<lambda>c. ddiv (Fin (real c)) (Fin (real N))) cs"
  by (simp add: counts_def i2d_def)

text \<open>
  \<open>normalizepdf\<close> on a row of raw counts whose sum \<open>N\<close> fits an \<open>int\<close>: it returns
  and leaves every entry of the row divided by \<open>N\<close>, the other rows untouched. With
  \<open>N = 0\<close> the division is by zero and every entry of the row becomes NaN; with
  \<open>N > 0\<close> every entry \<open>c\<close> becomes \<open>c / N\<close>.
\<close>

lemma normalizepdf_divides:
  assumes "wellformed nhp" "0 \<le> i" "i < elems nhp"
    and "row nhp i = counts cs" and "int (sum_list cs) \<le> INT_MAX"
  shows "\<exists>nhp'. normalizepdf nhp i = Some nhp' \<and> normalized nhp' \<and>
     row nhp' i = map (\<lambda>c. ddiv (Fin (real c)) (Fin (real (sum_list cs)))) cs \<and>
     (sum_list cs = 0 \<longrightarrow> row nhp' i = replicate (length cs) NaN) \<and>
     (0 < sum_list cs \<longrightarrow> row nhp' i = map (\<lambda>c. Fin (real c / real (sum_list cs))) cs) \<and>
     (\<forall>j. 0 \<le> j \<and> j < elems nhp \<and> j \<noteq> i \<longrightarrow> row nhp' j = row nhp j)"
proof -
  have m: "(0::int) \<le> INT_MAX" by (simp add: INT_MAX_def)
  have "sum_rec 0 (counts cs) = Some (int (sum_list cs))"
    using sum_rec_counts[OF order_refl m, of cs] assms(5) by simp
  then have "sum_rec 0 (row nhp i) = Some (int (sum_list cs))"
    by (simp only: assms(4))
  from normalizepdf_rows(2)[OF assms(1-3) this] obtain nhp' where
    n: "normalizepdf nhp i = Some nhp'" "normalized nhp'"
    "row nhp' i = map (\<lambda>v. ddiv v (i2d (int (sum_list cs)))) (row nhp i)"
    "\<forall>j. 0 \<le> j \<and> j < elems nhp \<and> j \<noteq> i \<longrightarrow> row nhp' j = row nhp j"
    by blast
  have r: "row nhp' i = map (\<lambda>v. ddiv v (i2d (int (sum_list cs)))) (counts cs)"
    using n(3) by (simp only: assms(4))
  have a: "row nhp' i = replicate (length cs) NaN" if z: "sum_list cs = 0"
    using ddiv_counts_zero[OF z] r by (simp only: z of_nat_0)
  have b: "row nhp' i = map (\<lambda>c. Fin (real c / real (sum_list cs))) cs" if "0 < sum_list cs"
    using r by (simp only: ddiv_counts_pos[OF that])
  have c: "row nhp' i = map (\<lambda>c. ddiv (Fin (real c)) (Fin (real (sum_list cs)))) cs"
    using r by (simp only: ddiv_counts)
  show ?thesis
  proof (intro exI[of _ nhp'] conjI impI)
    show "normalizepdf nhp i = Some nhp'" by (rule n(1))
    show "normalized nhp'" by (rule n(2))
    show "row nhp' i = map (\<lambda>c. ddiv (Fin (real c)) (Fin (real (sum_list cs)))) cs" by (rule c)
    show "row nhp' i = replicate (length cs) NaN" if "sum_list cs = 0" using that by (rule a)
    show "row nhp' i = map (\<lambda>c. Fin (real c / real (sum_list cs))) cs" if "0 < sum_list cs"
      using that by (rule b)
    show "\<forall>j. 0 \<le> j \<and> j < elems nhp \<and> j \<noteq> i \<longrightarrow> row nhp' j = row nhp j" by (rule n(4))
  qed
qed

subsection \<open>A row of more than \<open>INT_MAX\<close> samples\<close>

lemma hist13_created: "CreateNHArray True (Fin 0) (Fin 2) 3 1 = Some (Returns (hist13 0 0))"
  by (simp add: CreateNHArray_def hist13_def INT_MIN_def INT_MAX_def dsub_def i2d_def
      numeral_3_eq_3)

lemma round_half_even_0 [simp]: "round_half_even 0 = 0"
  by (simp add: round_half_even_def)

lemma round_half_even_1 [simp]: "round_half_even 1 = 1"
  by (simp add: round_half_even_def)

lemma hist13_update0:
  "UpdateNHArray (hist13 c d) (samples [Fin 0]) = Some (Returns (), hist13 (Suc c) d)"
  by (simp add: UpdateNHArray_def samples_def hist13_def UpdateNHArray_loop.simps [of _ _ 0]
      UpdateNHArray_loop.simps [of _ _ 1] updatevalue_def rd_def wr_def getpdfptr_def dsub_def
      trunc_def INT_MIN_def INT_MAX_def add.commute)

lemma hist13_update1:
  "UpdateNHArray (hist13 c d) (samples [Fin 1]) = Some (Returns (), hist13 c (Suc d))"
  by (simp add: UpdateNHArray_def samples_def hist13_def UpdateNHArray_loop.simps [of _ _ 0]
      UpdateNHArray_loop.simps [of _ _ 1] updatevalue_def rd_def wr_def getpdfptr_def dsub_def
      trunc_def INT_MIN_def INT_MAX_def add.commute)

lemma accumulate_all_hist13:
  "accumulate_all (hist13 c d) (replicate n (samples [Fin 0])) = Some (hist13 (c + n) d)"
  by (induction n arbitrary: c) (simp_all add: hist13_update0)

lemma accumulate_all_append:
  "accumulate_all nhp (as @ bs) =
     (case accumulate_all nhp as of None \<Rightarrow> None | Some nhp' \<Rightarrow> accumulate_all nhp' bs)"
  by (induction as arbitrary: nhp) (auto split: option.splits prod.splits result.splits)

lemma hist13_many:
  "hist13 2147483647 1 =
     \<lparr>xl = Fin 0, xu = Fin 2, nbins = 3, nbinsm1 = 2, deltax = Fin 1, elems = 1,
      dbuffer = [Fin 2147483647, Fin 1, Fin 0], normalized = False\<rparr>"
  by (simp add: hist13_def)

text \<open>
  C8: the row \<open>[2147483647, 1, 0]\<close> of raw counts, whose sum is \<open>N = 2147483648\<close>.
  The first loop of \<open>normalizepdf\<close> adds the row into the \<open>int\<close> variable \<open>Nx\<close>; the
  sum does not fit an \<open>int\<close>, the conversion back to \<open>int\<close> is undefined, and with it
  the normalization: the entries are not divided by \<open>N\<close>.
\<close>

theorem normalizepdf_sum_overflows:
  "row (hist13 2147483647 1) 0 = counts [2147483647, 1, 0] \<and>
   sum_list [2147483647, 1, 0 :: nat] = 2147483648 \<and>
   normalizepdf_sum (hist13 2147483647 1) (getpdfptr (hist13 2147483647 1) 0) 0 0 = None \<and>
   normalizepdf (hist13 2147483647 1) 0 = None"
proof -
  have "row (hist13 2147483647 1) 0 = counts [2147483647, 1, 0]"
    unfolding hist13_many by (simp add: row_def getpdfptr_def counts_def)
  moreover have "sum_list [2147483647, 1, 0 :: nat] = 2147483648" by simp
  moreover have
    "normalizepdf_sum (hist13 2147483647 1) (getpdfptr (hist13 2147483647 1) 0) 0 0 = None"
    unfolding hist13_many by code_simp
  moreover have "normalizepdf (hist13 2147483647 1) 0 = None"
    unfolding hist13_many by code_simp
  ultimately show ?thesis by (intro conjI)
qed

subsection \<open>Rows after the first call of \<open>GetXRange\<close>\<close>

lemma total_fraction:
  "foldl dadd (Fin p) (map (\<lambda>c. Fin (real c / K)) cs) = Fin (p + real (sum_list cs) / K)"
  by (induction cs arbitrary: p) (simp_all add: add_divide_distrib add.assoc)

lemma total_normalized_counts:
  assumes "0 < sum_list cs"
  shows "total (map (\<lambda>v. ddiv v (i2d (int (sum_list cs)))) (counts cs)) = Fin 1"
proof -
  define K where "K = sum_list cs"
  have "0 < K" using assms by (simp only: K_def)
  then have "real K / real K = 1" by simp
  then have "total (map (\<lambda>c. Fin (real c / real K)) cs) = Fin 1"
    by (simp add: total_def total_fraction K_def[symmetric])
  with \<open>0 < K\<close> show ?thesis
    by (simp only: K_def[symmetric] ddiv_counts_pos)
qed

lemma row_normalized_flag: "row (nhp\<lparr>normalized := b\<rparr>) j = row nhp j"
  by (simp add: row_def getpdfptr_def)

lemma GetXRange_norm_rows:
  "GetXRange_norm nhp ielem = Some nhp' \<Longrightarrow> wellformed nhp \<Longrightarrow> 0 \<le> ielem \<Longrightarrow> 0 < k \<Longrightarrow>
   (\<forall>j. ielem \<le> j \<and> j < elems nhp \<longrightarrow> (\<exists>cs. row nhp j = counts cs \<and> sum_list cs = k)) \<Longrightarrow>
   (\<forall>j. 0 \<le> j \<and> j < elems nhp \<longrightarrow>
      (if ielem \<le> j then total (row nhp' j) = Fin 1 else row nhp' j = row nhp j))"
proof (induction nhp ielem rule: GetXRange_norm.induct)
  case (1 nhp ielem)
  show ?case
  proof (cases "ielem < elems nhp")
    case False
    with "1.prems" show ?thesis by (subst (asm) GetXRange_norm.simps) simp
  next
    case True
    from True "1.prems"(1) obtain nhp1 where
      n: "normalizepdf nhp ielem = Some nhp1" and
      r: "GetXRange_norm nhp1 (ielem + 1) = Some nhp'"
      by (subst (asm) GetXRange_norm.simps) (auto split: option.splits)
    from "1.prems"(5) True obtain cs where
      cs: "row nhp ielem = counts cs" "sum_list cs = k"
      by auto
    from n normalizepdf_rows(1)[OF "1.prems"(2,3) True] obtain Nx where
      Nx: "sum_rec 0 (row nhp ielem) = Some Nx"
      by (auto split: option.splits)
    have m: "(0::int) \<le> INT_MAX" by (simp add: INT_MAX_def)
    from Nx cs sum_rec_counts[OF order_refl m, of cs] have NxK: "Nx = int k"
      by (auto split: if_splits)
    from normalizepdf_rows(2)[OF "1.prems"(2,3) True Nx] n have
      w1: "wellformed nhp1" and e1: "elems nhp1 = elems nhp" and
      ri: "row nhp1 ielem = map (\<lambda>v. ddiv v (i2d Nx)) (row nhp ielem)" and
      rj: "\<forall>j. 0 \<le> j \<and> j < elems nhp \<and> j \<noteq> ielem \<longrightarrow> row nhp1 j = row nhp j"
      by auto
    have t1: "total (row nhp1 ielem) = Fin 1"
      using total_normalized_counts[of cs] cs "1.prems"(4) by (simp add: ri NxK)
    have c1: "\<forall>j. ielem + 1 \<le> j \<and> j < elems nhp1 \<longrightarrow> (\<exists>cs. row nhp1 j = counts cs \<and> sum_list cs = k)"
      using "1.prems"(3,5) rj e1 by auto
    have z1: "0 \<le> ielem + 1" using "1.prems"(3) by simp
    note IH = "1.IH"[OF True n r w1 z1 "1.prems"(4) c1]
    show ?thesis
    proof (intro allI impI)
      fix j assume j: "0 \<le> j \<and> j < elems nhp"
      consider "j < ielem" | "j = ielem" | "ielem + 1 \<le> j" by linarith
      then show "if ielem \<le> j then total (row nhp' j) = Fin 1 else row nhp' j = row nhp j"
      proof cases
        case 1
        with IH j e1 rj "1.prems"(3) show ?thesis by auto
      next
        case 2
        with IH j e1 have "row nhp' j = row nhp1 j" by auto
        with 2 t1 show ?thesis by simp
      next
        case 3
        with IH j e1 show ?thesis by auto
      qed
    qed
  qed
qed

lemma GetXRange_normalized_state:
  assumes "normalized nhp" "GetXRange mem nhp prob junk = Some (res, nhp')"
  shows "nhp' = nhp"
  using assms by (auto simp: GetXRange_def Let_def split: option.splits if_splits)

text \<open>
  In the exact arithmetic of the model, and as long as the calls of \<open>UpdateNHArray\<close>
  and of \<open>GetXRange\<close> are defined (in particular no more than \<open>INT_MAX\<close> samples):
  after a call of \<open>GetXRange\<close> on a histogram that at least one update has reached,
  the flag is set and every row sums to 1; every further call of \<open>GetXRange\<close> leaves
  the histogram as it is, and every call of \<open>UpdateNHArray\<close> raises and leaves it as
  it is.
\<close>

lemma GetXRange_rows_sum_to_one:
  assumes "CreateNHArray mem0 lo hi nb ne = Some (Returns nhp0)"
    and "accumulate_all nhp0 as = Some nhp" and "as \<noteq> []"
    and "0 \<le> i" and "i < elems nhp0"
    and "GetXRange mem nhp prob junk = Some (res, nhp')"
  shows "normalized nhp' \<and> total (row nhp' i) = Fin 1 \<and>
     (\<forall>mem' prob' junk' res' nhp''.
        GetXRange mem' nhp' prob' junk' = Some (res', nhp'') \<longrightarrow> nhp'' = nhp') \<and>
     (\<forall>a. \<exists>e. UpdateNHArray nhp' a = Some (Raises e, nhp'))"
proof -
  from assms(1) have "elems nhp0 = ne"
    by (auto simp: CreateNHArray_def split: if_splits)
  with assms(4,5) have "0 < ne" by simp
  note C = CreateNHArray_raw_rows[OF assms(1) this]
  from accumulate_all_raw_rows[OF assms(2), of 0] C
  have A: "wellformed nhp" "\<not> normalized nhp" "elems nhp = elems nhp0"
    "raw_rows nhp (length as)"
    by simp_all
  have n: "normalized nhp'" using assms(6) by (rule GetXRange_normalized)
  from assms(6) A(2) obtain nhp1 where
    g: "GetXRange_norm nhp 0 = Some nhp1" and h: "nhp' = nhp1\<lparr>normalized := True\<rparr>"
    by (auto simp: GetXRange_def Let_def split: option.splits if_splits)
  have k: "0 < length as" using assms(3) by simp
  have c: "\<forall>j. 0 \<le> j \<and> j < elems nhp \<longrightarrow> (\<exists>cs. row nhp j = counts cs \<and> sum_list cs = length as)"
    using A(4) by (simp add: raw_rows_def)
  from GetXRange_norm_rows[OF g A(1) order_refl k c] assms(4,5) A(3)
  have "total (row nhp1 i) = Fin 1" by simp
  then have t: "total (row nhp' i) = Fin 1" by (simp add: h row_normalized_flag)
  have s: "nhp'' = nhp'" if "GetXRange mem' nhp' prob' junk' = Some (res', nhp'')"
    for mem' prob' junk' res' nhp''
    using n that by (rule GetXRange_normalized_state)
  have u: "\<exists>e. UpdateNHArray nhp' a = Some (Raises e, nhp')" for a
    using n by (simp add: UpdateNHArray_def)
  from n t s u show ?thesis by (intro conjI allI impI)
qed

text \<open>
  C6: one variable that has received \<open>2147483648\<close> samples, \<open>2147483647\<close> times the
  sample 0 and once the sample 1. The call of \<open>GetXRange\<close> normalizes the row with
  the \<open>int\<close> sum of \<open>normalizepdf\<close>, which the number of samples does not fit: the
  call has no defined result, and the row is not left summing to 1.
\<close>

theorem GetXRange_after_many_samples:
  "CreateNHArray True (Fin 0) (Fin 2) 3 1 = Some (Returns (hist13 0 0)) \<and>
   accumulate_all (hist13 0 0) (replicate 2147483647 (samples [Fin 0]) @ [samples [Fin 1]]) =
     Some (hist13 2147483647 1) \<and>
   GetXRange True (hist13 2147483647 1) (Fin (1 / 5)) (Fin 7, Fin 8) = None"
proof -
  have A: "accumulate_all (hist13 0 0) (replicate 2147483647 (samples [Fin 0])) =
      Some (hist13 (0 + 2147483647) 0)"
    by (rule accumulate_all_hist13)
  have B: "(0::nat) + 2147483647 = 2147483647" by simp
  have C: "accumulate_all (hist13 2147483647 0) [samples [Fin 1]] = Some (hist13 2147483647 1)"
    by (simp add: hist13_update1)
  have "accumulate_all (hist13 0 0) (replicate 2147483647 (samples [Fin 0]) @ [samples [Fin 1]]) =
     Some (hist13 2147483647 1)"
    by (simp only: accumulate_all_append A B option.case C)
  moreover have "GetXRange True (hist13 2147483647 1) (Fin (1 / 5)) (Fin 7, Fin 8) = None"
    unfolding hist13_many by code_simp
  ultimately show ?thesis using hist13_created by (intro conjI)
qed

end
